theory Spec2Isabelle
  imports Complex_Main "HOL-Library.Log_Nat" "HOL-Library.Multiset"
begin

section \<open>Data model of client\_load.py\<close>

text \<open>
  The exceptions that the statements of \<^verbatim>\<open>print_statistics\<close> can raise. Every
  raising primitive of the source is a function into \<open>py_error + 'a\<close>, with \<open>Inl\<close>
  the exception.
\<close>

datatype py_error = ZeroDivisionError | IndexError | ValueError | StatisticsError

text \<open>
  \<^verbatim>\<open>@dataclass class LatencyResult: success: bool; latency_ms: float; error: str = ""\<close>

  A latency is a finite binary64 number; it is kept as the real number it denotes. The
  percentile rule only selects elements of the sorted list, so no rounding is involved in
  the percentile values. A string is the list of its characters.
\<close>

record LatencyResult =
  success :: bool
  latency_ms :: real
  error :: string

definition bind_err :: "py_error + 'a \<Rightarrow> ('a \<Rightarrow> py_error + 'b) \<Rightarrow> py_error + 'b" where
  "bind_err m f = (case m of Inl e \<Rightarrow> Inl e | Inr v \<Rightarrow> f v)"

section \<open>Binary64 arithmetic of the percentile indices\<close>

text \<open>
  \<^verbatim>\<open>int(len(latencies) * 0.90)\<close> converts the length to a binary64 float, multiplies
  it by the binary64 constant nearest to 0.90 and truncates the rounded product. The
  index decides which element is reported, so this arithmetic is modelled bit for bit.
  All values involved are non-negative and are kept as natural numbers: the length as
  itself, the constants as their 53-bit significands (the constant is the significand
  times \<open>2 ^ -53\<close>), the product in units of \<open>2 ^ -53\<close>.

  \<open>round_to s N\<close> rounds \<open>N\<close> to a multiple of \<open>2 ^ s\<close>, to nearest, ties to the even
  multiple; \<open>round53 N\<close> keeps the 53 leading bits of \<open>N\<close> in that way, which is the
  rounding of IEEE 754 binary64 (no overflow or underflow arises: a length is below
  \<open>2 ^ 63\<close> and the products are at least one half).
\<close>

definition round_to :: "nat \<Rightarrow> nat \<Rightarrow> nat" where
  "round_to s N =
     (if s = 0 then N
      else let q = N div 2 ^ s; r = N mod 2 ^ s; h = 2 ^ (s - 1)
           in (if h < r \<or> (r = h \<and> odd q) then q + 1 else q) * 2 ^ s)"

definition round53 :: "nat \<Rightarrow> nat" where
  "round53 N = round_to (floorlog 2 N - 53) N"

definition float_of_len :: "nat \<Rightarrow> nat" where
  "float_of_len n = round53 n"

definition float_mul :: "nat \<Rightarrow> nat \<Rightarrow> nat" where
  "float_mul f M = round53 (f * M)"

definition int_of_float :: "nat \<Rightarrow> nat" where
  "int_of_float x = x div 2 ^ 53"

text \<open>The significands of the binary64 constants 0.50, 0.90, 0.95 and 0.99.\<close>

definition c50 :: nat where "c50 = 4503599627370496"
definition c90 :: nat where "c90 = 8106479329266893"
definition c95 :: nat where "c95 = 8556839292003942"
definition c99 :: nat where "c99 = 8917127262193582"

definition pct_idx :: "nat \<Rightarrow> nat \<Rightarrow> nat" where
  "pct_idx M n = int_of_float (float_mul (float_of_len n) M)"

section \<open>The primitives print\_statistics calls\<close>

definition py_div_len :: "nat \<Rightarrow> nat \<Rightarrow> py_error + real" where
  "py_div_len a b = (if b = 0 then Inl ZeroDivisionError else Inr (real a / real b))"

definition py_div_time :: "nat \<Rightarrow> real \<Rightarrow> py_error + real" where
  "py_div_time a t = (if t = 0 then Inl ZeroDivisionError else Inr (real a / t))"

definition py_min :: "real list \<Rightarrow> py_error + real" where
  "py_min xs = (if xs = [] then Inl ValueError else Inr (Min (set xs)))"

definition py_max :: "real list \<Rightarrow> py_error + real" where
  "py_max xs = (if xs = [] then Inl ValueError else Inr (Max (set xs)))"

definition py_index :: "'a list \<Rightarrow> nat \<Rightarrow> py_error + 'a" where
  "py_index xs i = (if i < length xs then Inr (xs ! i) else Inl IndexError)"

definition statistics_mean :: "real list \<Rightarrow> py_error + real" where
  "statistics_mean xs =
     (if xs = [] then Inl StatisticsError else Inr (sum_list xs / real (length xs)))"

definition statistics_median :: "real list \<Rightarrow> py_error + real" where
  "statistics_median xs =
     (let s = sort xs; n = length s
      in if n = 0 then Inl StatisticsError
         else if n mod 2 = 1 then Inr (s ! (n div 2))
         else Inr ((s ! (n div 2 - 1) + s ! (n div 2)) / 2))"

definition sample_variance :: "real list \<Rightarrow> real" where
  "sample_variance xs =
     (let m = sum_list xs / real (length xs)
      in sum_list (map (\<lambda>x. (x - m) ^ 2) xs) / real (length xs - 1))"

definition statistics_stdev :: "real list \<Rightarrow> py_error + real" where
  "statistics_stdev xs =
     (if length xs < 2 then Inl StatisticsError else Inr (sqrt (sample_variance xs)))"

section \<open>print\_statistics\<close>

text \<open>
  The report is what \<^verbatim>\<open>print_statistics\<close> prints, one field for each printed
  quantity, before the formatting to two decimals. \<open>latency = None\<close> is the latency
  block not printed, \<open>lat_stdev = None\<close> the line \<^verbatim>\<open>Std Dev: N/A\<close>,
  \<open>sample_errors = None\<close> the block \<^verbatim>\<open>Sample errors:\<close> not printed. The rates,
  the throughput, the mean, the median and the deviation are the exact real values
  (their rounding to binary64 is not modelled). A raised exception ends the function:
  the result is then \<open>Inl\<close> of it.
\<close>

record latency_stats =
  lat_min :: real
  lat_max :: real
  lat_mean :: real
  lat_median :: real
  lat_stdev :: "real option"
  p50 :: real
  p90 :: real
  p95 :: real
  p99 :: real

record stats_report =
  total_requests :: nat
  successful_count :: nat
  success_pct :: real
  failed_count :: nat
  failure_pct :: real
  total_time_s :: real
  throughput :: real
  latency :: "latency_stats option"
  sample_errors :: "string list option"

text \<open>Lines 124 to 144: the block under \<^verbatim>\<open>if successful:\<close>.\<close>

definition latency_block :: "LatencyResult list \<Rightarrow> py_error + latency_stats" where
  "latency_block successful =
     (let latencies = sort (map latency_ms successful) in
      bind_err (py_min latencies) (\<lambda>mn.
      bind_err (py_max latencies) (\<lambda>mx.
      bind_err (statistics_mean latencies) (\<lambda>mean.
      bind_err (statistics_median latencies) (\<lambda>med.
      bind_err (if 1 < length latencies
                then map_sum id Some (statistics_stdev latencies)
                else Inr None) (\<lambda>sd.
      let p50_idx = pct_idx c50 (length latencies);
          p90_idx = pct_idx c90 (length latencies);
          p95_idx = pct_idx c95 (length latencies);
          p99_idx = pct_idx c99 (length latencies) in
      bind_err (py_index latencies p50_idx) (\<lambda>v50.
      bind_err (py_index latencies p90_idx) (\<lambda>v90.
      bind_err (py_index latencies p95_idx) (\<lambda>v95.
      bind_err (py_index latencies (min p99_idx (length latencies - 1))) (\<lambda>v99.
      Inr \<lparr>lat_min = mn, lat_max = mx, lat_mean = mean, lat_median = med,
           lat_stdev = sd, p50 = v50, p90 = v90, p95 = v95, p99 = v99\<rparr>))))))))))"

text \<open>Lines 146 to 149: \<^verbatim>\<open>for r in failed[:5]: print(r.error[:100])\<close>.\<close>

definition error_sample :: "LatencyResult list \<Rightarrow> string list option" where
  "error_sample failed =
     (if failed \<noteq> [] then Some (map (\<lambda>r. take 100 (error r)) (take 5 failed)) else None)"

definition print_statistics :: "LatencyResult list \<Rightarrow> real \<Rightarrow> py_error + stats_report" where
  "print_statistics results total_time =
     (let successful = filter success results;
          failed = filter (\<lambda>r. \<not> success r) results in
      bind_err (py_div_len (100 * length successful) (length results)) (\<lambda>spct.
      bind_err (py_div_len (100 * length failed) (length results)) (\<lambda>fpct.
      bind_err (py_div_time (length results) total_time) (\<lambda>thr.
      bind_err (if successful \<noteq> [] then map_sum id Some (latency_block successful)
                else Inr None) (\<lambda>lat.
      Inr \<lparr>total_requests = length results,
           successful_count = length successful, success_pct = spct,
           failed_count = length failed, failure_pct = fpct,
           total_time_s = total_time, throughput = thr,
           latency = lat, sample_errors = error_sample failed\<rparr>)))))"

text \<open>The list the percentiles are read from: the latencies of the successful results, sorted.\<close>

definition sorted_latencies :: "LatencyResult list \<Rightarrow> real list" where
  "sorted_latencies results = sort (map latency_ms (filter success results))"

text \<open>
  A run used to evaluate the percentile rule on a long list: \<open>n\<close> successful results
  whose latencies are \<open>0, 1, \<dots>, n - 1\<close> milliseconds.
\<close>

definition ramp_run :: "nat \<Rightarrow> LatencyResult list" where
  "ramp_run n = map (\<lambda>i. \<lparr>success = True, latency_ms = real i, error = []\<rparr>) [0..<n]"

section \<open>The dispatcher: send\_plan\_request and run\_load\_test\<close>

text \<open>
  \<^verbatim>\<open>stub.Plan(request, timeout=10.0)\<close> either returns a response or raises
  \<^verbatim>\<open>grpc.RpcError\<close>, which is how the client signals every failure of a call (error
  status, deadline exceeded, connection lost); the string is \<^verbatim>\<open>str(e)\<close>. The stub is
  generated code outside the repository and is taken as this result type.
\<close>

datatype rpc_result = Response | RpcError string

text \<open>
  Lines 59 to 66. \<open>start\<close> is the reading of \<^verbatim>\<open>time.perf_counter()\<close> before the call,
  \<open>fin\<close> the reading after it returned or raised. Readings are kept as real numbers
  (seconds); binary64 subtraction and multiplication keep the sign of the exact result.
\<close>

definition send_plan_request :: "real \<Rightarrow> real \<Rightarrow> rpc_result \<Rightarrow> LatencyResult" where
  "send_plan_request start fin out =
     (case out of
        Response \<Rightarrow> \<lparr>success = True, latency_ms = (fin - start) * 1000, error = []\<rparr>
      | RpcError e \<Rightarrow> \<lparr>success = False, latency_ms = (fin - start) * 1000, error = e\<rparr>)"

text \<open>
  The state of \<^verbatim>\<open>run_load_test\<close> inside the \<^verbatim>\<open>with ThreadPoolExecutor(...)\<close> block:
  \<^item> \<open>queue\<close>: the request indices submitted and not yet taken by a worker;
  \<^item> \<open>running\<close>: the calls in flight, each with its index and its \<open>start\<close> reading;
  \<^item> \<open>finished\<close>: the futures that are done and that \<^verbatim>\<open>as_completed\<close> has not yet
    yielded, each with the index \<^verbatim>\<open>futures[future]\<close> and its \<^verbatim>\<open>LatencyResult\<close>;
  \<^item> \<open>outcomes\<close>: the list \<^verbatim>\<open>results\<close>, each element with the index of its future;
  \<^item> \<open>completed\<close> and \<open>progress\<close>: the counter and the progress lines printed;
  \<^item> \<open>calls\<close>: a log of what the stub did, one \<open>call\<close> entry for each call that has
    ended (its request index, its result, the two clock readings); nothing reads it;
  \<^item> \<open>clock\<close>: the current reading of \<^verbatim>\<open>time.perf_counter()\<close>.
\<close>

record call =
  call_index :: nat
  call_result :: rpc_result
  call_start :: real
  call_end :: real

record pool_state =
  queue :: "nat list"
  running :: "(nat \<times> real) list"
  finished :: "(nat \<times> LatencyResult) list"
  outcomes :: "(nat \<times> LatencyResult) list"
  completed :: nat
  progress :: "(nat \<times> real) list"
  calls :: "call list"
  clock :: real

text \<open>
  What can happen next is chosen by the scheduler, the network and the clock: time passes
  (the clock is monotonic, so never backwards), a free worker takes the next queued
  request and reads \<open>start\<close>, the call of a running request ends with some result, or
  \<^verbatim>\<open>as_completed\<close> yields one of the finished futures to the loop of lines 94 to 100.
\<close>

datatype event = Tick real | Start | Finish nat rpc_result | Collect nat

definition remove_nth :: "nat \<Rightarrow> 'a list \<Rightarrow> 'a list" where
  "remove_nth k xs = take k xs @ drop (Suc k) xs"

text \<open>
  One event. \<open>None\<close>: the event cannot happen in this state. \<open>Some (Inl e)\<close>: the loop
  raises \<open>e\<close> (the division of line 100 is the only statement of the loop that can).
  At most \<open>C\<close> calls are in flight, \<open>C\<close> being \<^verbatim>\<open>max_workers\<close>.
\<close>

definition step :: "nat \<Rightarrow> nat \<Rightarrow> event \<Rightarrow> pool_state \<Rightarrow> (py_error + pool_state) option" where
  "step N C e s =
     (case e of
        Tick d \<Rightarrow> if 0 \<le> d then Some (Inr (s\<lparr>clock := clock s + d\<rparr>)) else None
      | Start \<Rightarrow>
          (case queue s of
             [] \<Rightarrow> None
           | i # q \<Rightarrow>
               if length (running s) < C
               then Some (Inr (s\<lparr>queue := q, running := running s @ [(i, clock s)]\<rparr>))
               else None)
      | Finish k out \<Rightarrow>
          if k < length (running s)
          then Some (Inr (s\<lparr>running := remove_nth k (running s),
                 finished := finished s @
                   [(fst (running s ! k), send_plan_request (snd (running s ! k)) (clock s) out)],
                 calls := calls s @
                   [\<lparr>call_index = fst (running s ! k), call_result = out,
                     call_start = snd (running s ! k), call_end = clock s\<rparr>]\<rparr>))
          else None
      | Collect k \<Rightarrow>
          if k < length (finished s)
          then (let c = completed s + 1;
                    s' = s\<lparr>finished := remove_nth k (finished s),
                           outcomes := outcomes s @ [finished s ! k], completed := c\<rparr>
                in if c mod 100 = 0
                   then (if N = 0 then Some (Inl ZeroDivisionError)
                         else Some (Inr (s'\<lparr>progress :=
                                 progress s @ [(c, real (100 * c) / real N)]\<rparr>)))
                   else Some (Inr s'))
          else None)"

fun exec :: "nat \<Rightarrow> nat \<Rightarrow> event list \<Rightarrow> pool_state \<Rightarrow> (py_error + pool_state) option" where
  "exec N C [] s = Some (Inr s)"
| "exec N C (e # es) s =
     (case step N C e s of
        None \<Rightarrow> None
      | Some (Inl err) \<Rightarrow> Some (Inl err)
      | Some (Inr s') \<Rightarrow> exec N C es s')"

text \<open>
  Line 85 reads \<open>t0\<close>; lines 88 to 91 submit the requests \<open>0, \<dots>, N - 1\<close>. The
  \<^verbatim>\<open>with\<close> block is left when every future has been yielded and no worker is busy.
\<close>

definition init_pool :: "nat \<Rightarrow> real \<Rightarrow> pool_state" where
  "init_pool N t0 = \<lparr>queue = [0..<N], running = [], finished = [], outcomes = [],
     completed = 0, progress = [], calls = [], clock = t0\<rparr>"

definition pool_idle :: "pool_state \<Rightarrow> bool" where
  "pool_idle s \<longleftrightarrow> queue s = [] \<and> running s = [] \<and> finished s = []"

text \<open>
  A whole run, for a list of events: \<open>None\<close> when the list is not a complete run of the
  pool (an event that cannot happen, or work left at its end), otherwise the exception
  raised or the final state. \<^verbatim>\<open>ThreadPoolExecutor(max_workers=0)\<close> raises
  \<^verbatim>\<open>ValueError\<close>. \<^verbatim>\<open>run_load_test\<close> returns the results and the elapsed time.
\<close>

definition run_pool :: "nat \<Rightarrow> nat \<Rightarrow> real \<Rightarrow> event list \<Rightarrow> (py_error + pool_state) option" where
  "run_pool N C t0 evs =
     (if C = 0 then Some (Inl ValueError)
      else case exec N C evs (init_pool N t0) of
             None \<Rightarrow> None
           | Some (Inl err) \<Rightarrow> Some (Inl err)
           | Some (Inr s) \<Rightarrow> if pool_idle s then Some (Inr s) else None)"

definition run_load_test ::
  "nat \<Rightarrow> nat \<Rightarrow> real \<Rightarrow> event list \<Rightarrow> (py_error + LatencyResult list \<times> real) option" where
  "run_load_test N C t0 evs =
     map_option (map_sum id (\<lambda>s. (map snd (outcomes s), clock s - t0))) (run_pool N C t0 evs)"

text \<open>
  The outcome of a call that has ended, with its request index, and what holds of every
  state the pool reaches.
\<close>

definition outcome_of :: "call \<Rightarrow> nat \<times> LatencyResult" where
  "outcome_of c = (call_index c, send_plan_request (call_start c) (call_end c) (call_result c))"

definition pool_inv :: "nat \<Rightarrow> nat \<Rightarrow> pool_state \<Rightarrow> bool" where
  "pool_inv N C s \<longleftrightarrow>
     mset (queue s) + mset (map fst (running s)) + mset (map fst (finished s))
       + mset (map fst (outcomes s)) = mset [0..<N]
   \<and> length (running s) \<le> C
   \<and> completed s = length (outcomes s)
   \<and> (\<forall>x \<in> set (running s). snd x \<le> clock s)
   \<and> (\<forall>c \<in> set (calls s). call_start c \<le> call_end c)
   \<and> mset (map outcome_of (calls s)) = mset (finished s) + mset (outcomes s)"

text \<open>
  The work left in a state: a queued request needs three more events (start, finish,
  collect), a running one two, a finished one one. \<open>next_event\<close> is an event that can
  happen in every state with work left; \<open>busy\<close> counts the events of a list other than
  the passing of time.
\<close>

definition work_left :: "pool_state \<Rightarrow> nat" where
  "work_left s = 3 * length (queue s) + 2 * length (running s) + length (finished s)"

definition next_event :: "pool_state \<Rightarrow> event" where
  "next_event s =
     (if finished s \<noteq> [] then Collect 0
      else if running s \<noteq> [] then Finish 0 Response
      else Start)"

definition busy :: "event list \<Rightarrow> nat" where
  "busy evs = length (filter (\<lambda>e. case e of Tick d \<Rightarrow> False | _ \<Rightarrow> True) evs)"

text \<open>
  A run of three requests on two workers, and the state it is in when the call of
  request 0 is about to fail; used to evaluate the dispatcher.
\<close>

definition example_run :: "event list" where
  "example_run = [Start, Start, Tick (1/4), Finish 1 Response, Collect 0, Start, Tick (1/4),
     Finish 0 (RpcError ''deadline''), Tick (1/2), Finish 0 Response, Collect 1, Collect 0]"

definition example_state :: pool_state where
  "example_state = \<lparr>queue = [], running = [(0, 0), (2, 1/4)], finished = [],
     outcomes = [(1, \<lparr>success = True, latency_ms = 250, error = []\<rparr>)], completed = 1,
     progress = [],
     calls = [\<lparr>call_index = 1, call_result = Response, call_start = 0, call_end = 1/4\<rparr>],
     clock = 1/2\<rparr>"

section \<open>Properties of the binary64 rounding\<close>

lemma round_to_cases:
  "round_to s N = (N div 2 ^ s) * 2 ^ s \<or>
   round_to s N = (N div 2 ^ s + 1) * 2 ^ s \<and> 0 < s \<and> 2 ^ (s - 1) \<le> N mod 2 ^ s"
  by (auto simp: round_to_def Let_def)

lemma round_to_ge_mult: "K * 2 ^ s \<le> N \<Longrightarrow> K * 2 ^ s \<le> round_to s N"
proof -
  assume a: "K * 2 ^ s \<le> N"
  have "K \<le> N div 2 ^ s" using a by (simp add: less_eq_div_iff_mult_less_eq)
  hence "K * 2 ^ s \<le> (N div 2 ^ s) * 2 ^ s" by simp
  moreover have "(N div 2 ^ s) * 2 ^ s \<le> round_to s N"
    using round_to_cases[of s N] by auto
  ultimately show ?thesis by linarith
qed

lemma round_to_multiple: "round_to s (K * 2 ^ s) = K * 2 ^ s"
  by (simp add: round_to_def Let_def)

lemma round_to_le_mult: "N \<le> K * 2 ^ s \<Longrightarrow> round_to s N \<le> K * 2 ^ s"
proof (cases "N = K * 2 ^ s")
  case True
  then show ?thesis by (simp add: round_to_multiple)
next
  case False
  assume "N \<le> K * 2 ^ s"
  with False have "N < K * 2 ^ s" by simp
  hence "N div 2 ^ s < K" by (simp add: div_less_iff_less_mult)
  hence "(N div 2 ^ s + 1) * 2 ^ s \<le> K * 2 ^ s" by (intro mult_right_mono) auto
  moreover have "round_to s N \<le> (N div 2 ^ s + 1) * 2 ^ s"
    using round_to_cases[of s N] by auto
  ultimately show ?thesis by linarith
qed

lemma round_to_mono: "N \<le> N' \<Longrightarrow> round_to s N \<le> round_to s N'"
proof -
  assume le: "N \<le> N'"
  have dle: "N div 2 ^ s \<le> N' div 2 ^ s" using le by (rule div_le_mono)
  show ?thesis
  proof (cases "N div 2 ^ s < N' div 2 ^ s")
    case True
    have "N \<le> (N div 2 ^ s + 1) * 2 ^ s"
      using div_less_iff_less_mult[of "2 ^ s" N "N div 2 ^ s + 1"] by simp
    hence "round_to s N \<le> (N div 2 ^ s + 1) * 2 ^ s" by (rule round_to_le_mult)
    also have "\<dots> \<le> (N' div 2 ^ s) * 2 ^ s" using True by (intro mult_right_mono) auto
    also have "\<dots> \<le> round_to s N'" by (rule round_to_ge_mult) simp
    finally show ?thesis .
  next
    case False
    with dle have eq: "N div 2 ^ s = N' div 2 ^ s" by simp
    have "N mod 2 ^ s \<le> N' mod 2 ^ s"
      using le eq by (metis add_le_cancel_left mult_div_mod_eq)
    then show ?thesis using eq by (auto simp: round_to_def Let_def)
  qed
qed

lemma round_to_upper: "0 < s \<Longrightarrow> round_to s N \<le> N + 2 ^ (s - 1)"
proof -
  assume s: "0 < s"
  have two: "(2::nat) ^ s = 2 * 2 ^ (s - 1)" using s by (cases s) auto
  have N: "N = (N div 2 ^ s) * 2 ^ s + N mod 2 ^ s" by (simp add: div_mult_mod_eq)
  from round_to_cases[of s N] show ?thesis
  proof
    assume "round_to s N = N div 2 ^ s * 2 ^ s"
    with N show ?thesis by linarith
  next
    assume a: "round_to s N = (N div 2 ^ s + 1) * 2 ^ s \<and> 0 < s \<and> 2 ^ (s - 1) \<le> N mod 2 ^ s"
    hence "round_to s N = (N div 2 ^ s) * 2 ^ s + 2 * 2 ^ (s - 1)" using two by (simp add: algebra_simps)
    with a N show ?thesis by linarith
  qed
qed

lemma round53_exact: "N < 2 ^ 53 \<Longrightarrow> round53 N = N"
proof -
  assume "N < 2 ^ 53"
  hence "floorlog 2 N \<le> 53" by (intro floorlog_leI) auto
  thus ?thesis by (simp add: round53_def round_to_def)
qed

lemma round53_mono: "N \<le> N' \<Longrightarrow> round53 N \<le> round53 N'"
proof -
  assume le: "N \<le> N'"
  define s where "s = floorlog 2 N - 53"
  define s' where "s' = floorlog 2 N' - 53"
  have fl: "floorlog 2 N \<le> floorlog 2 N'" using le by (rule floorlog_mono)
  hence ss: "s \<le> s'" by (simp add: s_def s'_def)
  show ?thesis
  proof (cases "s = s'")
    case True
    then show ?thesis using round_to_mono[OF le, of s] by (simp add: round53_def s_def s'_def)
  next
    case False
    with ss have lt: "s < s'" by simp
    hence fl': "floorlog 2 N' = s' + 53" by (simp add: s'_def)
    have "floorlog 2 N \<le> s + 53" by (simp add: s_def)
    hence "N < 2 ^ (s + 53)" by (rule floorlog_leD) simp
    hence "N \<le> 2 ^ 53 * 2 ^ s" by (simp add: power_add mult.commute)
    hence a: "round_to s N \<le> 2 ^ 53 * 2 ^ s" by (rule round_to_le_mult)
    have "0 < N'" using fl' by (metis add_is_0 floorlog_eq_zero_iff gr0I le_zero_eq zero_neq_numeral)
    hence "2 ^ (floorlog 2 N' - 1) \<le> N'" using floorlog_bounds[of N' 2] by simp
    hence "2 ^ 52 * 2 ^ s' \<le> N'" by (simp add: fl' power_add mult.commute)
    hence b: "2 ^ 52 * 2 ^ s' \<le> round_to s' N'" by (rule round_to_ge_mult)
    have "(2::nat) ^ 53 * 2 ^ s = 2 ^ 52 * 2 ^ (s + 1)" by simp
    also have "\<dots> \<le> 2 ^ 52 * 2 ^ s'" using lt by (intro mult_left_mono power_increasing) auto
    finally have "(2::nat) ^ 53 * 2 ^ s \<le> 2 ^ 52 * 2 ^ s'" .
    with a b show ?thesis by (simp add: round53_def s_def s'_def)
  qed
qed

lemma round53_rel: "2 ^ 53 * round53 N \<le> (2 ^ 53 + 1) * N"
proof (cases "floorlog 2 N - 53 = 0")
  case True
  then show ?thesis by (simp add: round53_def round_to_def)
next
  case False
  define s where "s = floorlog 2 N - 53"
  have s: "0 < s" and fl: "floorlog 2 N = s + 53" using False by (simp_all add: s_def)
  have "0 < N" using fl by (metis add_is_0 floorlog_eq_zero_iff gr0I le_zero_eq zero_neq_numeral)
  hence "2 ^ (floorlog 2 N - 1) \<le> N" using floorlog_bounds[of N 2] by simp
  hence "2 ^ (s + 52) \<le> N" by (simp add: fl add.commute)
  moreover have "(2::nat) ^ (s + 52) = 2 ^ 53 * 2 ^ (s - 1)"
    using s by (cases s) (auto simp: power_add)
  ultimately have h: "2 ^ 53 * 2 ^ (s - 1) \<le> N" by simp
  have "round53 N \<le> N + 2 ^ (s - 1)" using round_to_upper[OF s, of N] by (simp add: round53_def s_def)
  hence "2 ^ 53 * round53 N \<le> 2 ^ 53 * (N + 2 ^ (s - 1))" by (rule mult_left_mono) simp
  also have "\<dots> = 2 ^ 53 * N + 2 ^ 53 * 2 ^ (s - 1)" by (simp add: algebra_simps)
  also have "\<dots> \<le> 2 ^ 53 * N + N" using h by simp
  finally show ?thesis by (simp add: algebra_simps)
qed

lemma pct_idx_less:
  assumes n: "0 < n" and M: "(2 ^ 53 + 1) * ((2 ^ 53 + 1) * M) < 2 ^ 159"
  shows "pct_idx M n < n"
proof -
  define f where "f = round53 n"
  define R where "R = round53 (f * M)"
  have 1: "2 ^ 53 * R \<le> (2 ^ 53 + 1) * (f * M)" unfolding R_def by (rule round53_rel)
  have 2: "2 ^ 53 * f \<le> (2 ^ 53 + 1) * n" unfolding f_def by (rule round53_rel)
  have "2 ^ 53 * (2 ^ 53 * R) \<le> 2 ^ 53 * ((2 ^ 53 + 1) * (f * M))"
    using 1 by (rule mult_left_mono) simp
  also have "\<dots> = ((2 ^ 53 + 1) * M) * (2 ^ 53 * f)" by (simp add: algebra_simps)
  also have "\<dots> \<le> ((2 ^ 53 + 1) * M) * ((2 ^ 53 + 1) * n)"
    using 2 by (rule mult_left_mono) simp
  also have "\<dots> = ((2 ^ 53 + 1) * ((2 ^ 53 + 1) * M)) * n" by (simp add: algebra_simps)
  also have "\<dots> < 2 ^ 159 * n" using M n by (intro mult_strict_right_mono) auto
  finally have "2 ^ 106 * R < 2 ^ 106 * (2 ^ 53 * n)" by (simp add: algebra_simps)
  hence "R < 2 ^ 53 * n" by simp
  hence "R div 2 ^ 53 < n" by (simp add: div_less_iff_less_mult mult.commute)
  thus ?thesis by (simp add: pct_idx_def int_of_float_def float_mul_def float_of_len_def R_def f_def)
qed

lemma pct_idx_c50_less: "0 < n \<Longrightarrow> pct_idx c50 n < n"
  by (rule pct_idx_less) (simp_all add: c50_def)

lemma pct_idx_c90_less: "0 < n \<Longrightarrow> pct_idx c90 n < n"
  by (rule pct_idx_less) (simp_all add: c90_def)

lemma pct_idx_c95_less: "0 < n \<Longrightarrow> pct_idx c95 n < n"
  by (rule pct_idx_less) (simp_all add: c95_def)

lemma pct_idx_c99_less: "0 < n \<Longrightarrow> pct_idx c99 n < n"
  by (rule pct_idx_less) (simp_all add: c99_def)

lemma pct_idx_mono: "M \<le> M' \<Longrightarrow> pct_idx M n \<le> pct_idx M' n"
  unfolding pct_idx_def int_of_float_def float_mul_def
  by (intro div_le_mono round53_mono mult_le_mono2)

lemma latency_block_eq:
  assumes "successful \<noteq> []"
  shows "latency_block successful =
    (let l = sort (map latency_ms successful); n = length l in
     Inr \<lparr>lat_min = Min (set l), lat_max = Max (set l), lat_mean = sum_list l / real n,
          lat_median = (if n mod 2 = 1 then l ! (n div 2)
                        else (l ! (n div 2 - 1) + l ! (n div 2)) / 2),
          lat_stdev = (if 1 < n then Some (sqrt (sample_variance l)) else None),
          p50 = l ! pct_idx c50 n, p90 = l ! pct_idx c90 n, p95 = l ! pct_idx c95 n,
          p99 = l ! min (pct_idx c99 n) (n - 1)\<rparr>)"
proof -
  define l where "l = sort (map latency_ms successful)"
  have n: "0 < length l" using assms by (simp add: l_def)
  hence ne: "l \<noteq> []" by auto
  have len: "length (sort l) = length l" by simp
  have srt: "sort l = l" unfolding l_def by (simp add: sort_key_id_if_sorted)
  have i: "pct_idx c50 (length l) < length l" "pct_idx c90 (length l) < length l"
    "pct_idx c95 (length l) < length l"
    using n by (simp_all add: pct_idx_c50_less pct_idx_c90_less pct_idx_c95_less)
  have i99: "min (pct_idx c99 (length l)) (length l - 1) < length l"
    using n by arith
  show ?thesis
    unfolding latency_block_def l_def[symmetric] Let_def
    using n ne i i99
    by (simp add: bind_err_def py_min_def py_max_def statistics_mean_def statistics_median_def
        statistics_stdev_def py_index_def srt Let_def)
qed

section \<open>What print\_statistics returns\<close>

lemma print_statistics_total:
  "print_statistics results t =
     (if results = [] \<or> t = 0 then Inl ZeroDivisionError
      else Inr \<lparr>total_requests = length results,
           successful_count = length (filter success results),
           success_pct = real (100 * length (filter success results)) / real (length results),
           failed_count = length (filter (\<lambda>r. \<not> success r) results),
           failure_pct = real (100 * length (filter (\<lambda>r. \<not> success r) results))
                           / real (length results),
           total_time_s = t, throughput = real (length results) / t,
           latency = (if filter success results \<noteq> []
                      then Some (projr (latency_block (filter success results))) else None),
           sample_errors = error_sample (filter (\<lambda>r. \<not> success r) results)\<rparr>)"
proof (cases "filter success results = []")
  case True
  then show ?thesis
    by (simp add: print_statistics_def Let_def bind_err_def py_div_len_def py_div_time_def)
next
  case False
  then obtain ls where ls: "latency_block (filter success results) = Inr ls"
    by (simp add: latency_block_eq Let_def)
  from False show ?thesis
    by (simp add: print_statistics_def Let_def bind_err_def py_div_len_def py_div_time_def ls)
qed

section \<open>Counts, rates and throughput\<close>

lemma rates_are_percentages:
  assumes "results \<noteq> []" "t \<noteq> 0"
  shows "\<exists>rep. print_statistics results t = Inr rep
    \<and> total_requests rep = length results
    \<and> successful_count rep + failed_count rep = total_requests rep
    \<and> success_pct rep = 100 * real (successful_count rep) / real (total_requests rep)
    \<and> failure_pct rep = 100 * real (failed_count rep) / real (total_requests rep)"
  using assms by (simp add: print_statistics_total sum_length_filter_compl)

text \<open>
  C4. The rates are percentages of the total, but no guard covers a total of 0: on the
  empty result list, which \<^verbatim>\<open>run_load_test\<close> returns for \<^verbatim>\<open>--requests 0\<close>, the
  division of line 118 raises \<^verbatim>\<open>ZeroDivisionError\<close>, whatever the elapsed time.
\<close>

theorem C4_zero_total_faults: "print_statistics [] total_time = Inl ZeroDivisionError"
  by (simp add: print_statistics_total)

text \<open>
  C5, as amended. A run with at least one outcome, none of them successful, and a nonzero
  elapsed time yields a report, and the report has no latency block.
\<close>

theorem C5_no_success_no_latency:
  assumes "results \<noteq> []" "total_time \<noteq> 0" "filter success results = []"
  shows "\<exists>rep. print_statistics results total_time = Inr rep \<and> latency rep = None"
  using assms by (simp add: print_statistics_total)

theorem C5_no_success_no_latency_witness:
  "[\<lparr>success = False, latency_ms = 7, error = ''deadline exceeded''\<rparr>] \<noteq> []
   \<and> (2::real) \<noteq> 0
   \<and> filter success [\<lparr>success = False, latency_ms = 7, error = ''deadline exceeded''\<rparr>] = []
   \<and> (\<exists>rep. print_statistics
          [\<lparr>success = False, latency_ms = 7, error = ''deadline exceeded''\<rparr>] 2 = Inr rep
        \<and> latency rep = None)"
  using C5_no_success_no_latency
    [of "[\<lparr>success = False, latency_ms = 7, error = ''deadline exceeded''\<rparr>]" 2]
  by simp

text \<open>
  C5 as stated fails: a run without a success whose elapsed time is 0 faults with a
  division by zero (line 121).
\<close>

theorem C5_counterexample:
  "filter success [\<lparr>success = False, latency_ms = 7, error = ''deadline exceeded''\<rparr>] = []
   \<and> print_statistics [\<lparr>success = False, latency_ms = 7, error = ''deadline exceeded''\<rparr>] 0
       = Inl ZeroDivisionError"
  by (simp add: print_statistics_total)

text \<open>
  C6, as amended. For a run with at least one outcome and a nonzero elapsed time the
  reported throughput is the number of outcomes divided by the elapsed seconds.
\<close>

theorem C6_throughput:
  assumes "results \<noteq> []" "total_time \<noteq> 0"
  shows "\<exists>rep. print_statistics results total_time = Inr rep
    \<and> throughput rep = real (length results) / total_time"
  using assms by (simp add: print_statistics_total)

theorem C6_throughput_witness:
  "replicate 100 \<lparr>success = True, latency_ms = 5, error = ''''\<rparr> \<noteq> []
   \<and> (10::real) \<noteq> 0
   \<and> (\<exists>rep. print_statistics (replicate 100 \<lparr>success = True, latency_ms = 5, error = ''''\<rparr>) 10
          = Inr rep \<and> throughput rep = 10)"
  using C6_throughput [of "replicate 100 \<lparr>success = True, latency_ms = 5, error = ''''\<rparr>" 10]
  by simp

text \<open>
  C6 as stated fails: nothing guards the division of line 121, and an elapsed time of 0
  raises \<^verbatim>\<open>ZeroDivisionError\<close>.
\<close>

theorem C6_counterexample:
  "print_statistics [\<lparr>success = True, latency_ms = 5, error = ''''\<rparr>] 0 = Inl ZeroDivisionError"
  by (simp add: print_statistics_total)

section \<open>The latency block, the percentiles and the failure sample\<close>

lemma reported_latency:
  assumes "print_statistics results t = Inr rep" "filter success results \<noteq> []"
  shows "\<exists>ls. latency rep = Some ls
    \<and> p50 ls = sorted_latencies results ! pct_idx c50 (length (sorted_latencies results))
    \<and> p90 ls = sorted_latencies results ! pct_idx c90 (length (sorted_latencies results))
    \<and> p95 ls = sorted_latencies results ! pct_idx c95 (length (sorted_latencies results))
    \<and> p99 ls = sorted_latencies results !
          min (pct_idx c99 (length (sorted_latencies results)))
              (length (sorted_latencies results) - 1)
    \<and> lat_stdev ls = (if 1 < length (sorted_latencies results)
                       then Some (sqrt (sample_variance (sorted_latencies results))) else None)"
proof -
  from assms(1) have "results \<noteq> [] \<and> t \<noteq> 0"
    by (auto simp: print_statistics_total split: if_splits)
  with assms have "latency rep = Some (projr (latency_block (filter success results)))"
    by (auto simp: print_statistics_total)
  thus ?thesis using assms(2)
    by (simp add: latency_block_eq Let_def sorted_latencies_def)
qed

lemma length_sorted_latencies:
  "length (sorted_latencies results) = length (filter success results)"
  by (simp add: sorted_latencies_def)

lemma sorted_sorted_latencies: "sorted (sorted_latencies results)"
  by (simp add: sorted_latencies_def)

text \<open>
  C10. For every length \<open>n \<ge> 1\<close> the indices the code computes for p50, p90 and p95,
  which it uses without a clamp, are at most \<open>n - 1\<close>, and so are the exact values
  \<open>\<lfloor>n * p / 100\<rfloor>\<close>; no input makes \<^verbatim>\<open>print_statistics\<close> read the sorted list out
  of range.
\<close>

theorem C10_unclamped_indices_in_range:
  assumes "1 \<le> n"
  shows "pct_idx c50 n \<le> n - 1 \<and> pct_idx c90 n \<le> n - 1 \<and> pct_idx c95 n \<le> n - 1
    \<and> n * 50 div 100 \<le> n - 1 \<and> n * 90 div 100 \<le> n - 1 \<and> n * 95 div 100 \<le> n - 1
    \<and> (\<forall>results t. print_statistics results t \<noteq> Inl IndexError)"
proof -
  have n: "0 < n" using assms by simp
  have a: "pct_idx c50 n \<le> n - 1" using pct_idx_c50_less[OF n] by arith
  have b: "pct_idx c90 n \<le> n - 1" using pct_idx_c90_less[OF n] by arith
  have c: "pct_idx c95 n \<le> n - 1" using pct_idx_c95_less[OF n] by arith
  have d: "n * 50 div 100 \<le> n - 1" using n by arith
  have e: "n * 90 div 100 \<le> n - 1" using n by arith
  have f: "n * 95 div 100 \<le> n - 1" using n by arith
  have g: "\<forall>results t. print_statistics results t \<noteq> Inl IndexError"
    by (simp add: print_statistics_total)
  from a b c d e f g show ?thesis by blast
qed

lemma pct_idx_20: "pct_idx c50 20 = 10" "pct_idx c90 20 = 18" "pct_idx c95 20 = 19"
  by (simp_all add: pct_idx_def int_of_float_def float_mul_def float_of_len_def round53_def
      round_to_def compute_floorlog c50_def c90_def c95_def Let_def)

theorem C10_unclamped_indices_in_range_witness:
  "(1::nat) \<le> 20 \<and> pct_idx c50 20 = 10 \<and> pct_idx c90 20 = 18 \<and> pct_idx c95 20 = 19
   \<and> pct_idx c95 20 \<le> 20 - 1 \<and> (20::nat) * 95 div 100 \<le> 20 - 1"
  using C10_unclamped_indices_in_range [of 20] by (simp add: pct_idx_20)

text \<open>
  C3. Whenever a report is printed for a run with at least one success, its latency block
  is there and its percentiles are in order: p50 \<open>\<le>\<close> p90 \<open>\<le>\<close> p95 \<open>\<le>\<close> p99.
\<close>

theorem C3_percentiles_monotone:
  assumes "print_statistics results t = Inr rep" "\<exists>r \<in> set results. success r"
  shows "\<exists>ls. latency rep = Some ls \<and> p50 ls \<le> p90 ls \<and> p90 ls \<le> p95 ls \<and> p95 ls \<le> p99 ls"
proof -
  define l where "l = sorted_latencies results"
  define n where "n = length l"
  have ne: "filter success results \<noteq> []" using assms(2) by (auto simp: filter_empty_conv)
  hence n: "0 < n" by (simp add: n_def l_def length_sorted_latencies)
  have s: "sorted l" by (simp add: l_def sorted_sorted_latencies)
  have i1: "pct_idx c50 n \<le> pct_idx c90 n" by (rule pct_idx_mono) (simp add: c50_def c90_def)
  have i2: "pct_idx c90 n \<le> pct_idx c95 n" by (rule pct_idx_mono) (simp add: c90_def c95_def)
  have "pct_idx c95 n \<le> pct_idx c99 n" by (rule pct_idx_mono) (simp add: c95_def c99_def)
  moreover have i95: "pct_idx c95 n < n" using n by (rule pct_idx_c95_less)
  ultimately have i3: "pct_idx c95 n \<le> min (pct_idx c99 n) (n - 1)" by simp
  have i4: "min (pct_idx c99 n) (n - 1) < n" using n by arith
  have "l ! pct_idx c50 n \<le> l ! pct_idx c90 n" "l ! pct_idx c90 n \<le> l ! pct_idx c95 n"
    "l ! pct_idx c95 n \<le> l ! min (pct_idx c99 n) (n - 1)"
    using s i1 i2 i3 i4 i95 by (auto intro!: sorted_nth_mono simp: n_def)
  moreover from reported_latency[OF assms(1) ne] obtain ls where
    "latency rep = Some ls" "p50 ls = l ! pct_idx c50 n" "p90 ls = l ! pct_idx c90 n"
    "p95 ls = l ! pct_idx c95 n" "p99 ls = l ! min (pct_idx c99 n) (n - 1)"
    by (auto simp: l_def n_def)
  ultimately show ?thesis by auto
qed

lemma pct_idx_3: "pct_idx c50 3 = 1" "pct_idx c90 3 = 2" "pct_idx c95 3 = 2" "pct_idx c99 3 = 2"
  by (simp_all add: pct_idx_def int_of_float_def float_mul_def float_of_len_def round53_def
      round_to_def compute_floorlog c50_def c90_def c95_def c99_def Let_def)

theorem C3_percentiles_monotone_witness:
  "\<exists>rep ls. print_statistics
       [\<lparr>success = True, latency_ms = 30, error = ''''\<rparr>,
        \<lparr>success = False, latency_ms = 5, error = ''unavailable''\<rparr>,
        \<lparr>success = True, latency_ms = 10, error = ''''\<rparr>,
        \<lparr>success = True, latency_ms = 20, error = ''''\<rparr>] 2 = Inr rep
     \<and> latency rep = Some ls \<and> p50 ls = 20 \<and> p90 ls = 30
     \<and> p50 ls \<le> p90 ls \<and> p90 ls \<le> p95 ls \<and> p95 ls \<le> p99 ls"
proof -
  define X where "X = [\<lparr>success = True, latency_ms = 30, error = ''''\<rparr>,
        \<lparr>success = False, latency_ms = 5, error = ''unavailable''\<rparr>,
        \<lparr>success = True, latency_ms = 10, error = ''''\<rparr>,
        \<lparr>success = True, latency_ms = 20, error = ''''\<rparr>]"
  obtain rep where rep: "print_statistics X 2 = Inr rep"
    by (simp add: print_statistics_total X_def)
  have ok: "\<exists>r \<in> set X. success r" by (simp add: X_def)
  have ne: "filter success X \<noteq> []" by (simp add: X_def)
  have sl: "sorted_latencies X = [10, 20, 30]" by (simp add: sorted_latencies_def X_def)
  from C3_percentiles_monotone[OF rep ok] obtain ls where
    ls: "latency rep = Some ls" "p50 ls \<le> p90 ls" "p90 ls \<le> p95 ls" "p95 ls \<le> p99 ls"
    by blast
  from reported_latency[OF rep ne] ls(1) have "p50 ls = 20" "p90 ls = 30"
    by (auto simp: sl pct_idx_3[unfolded numeral_3_eq_3])
  with rep ls show ?thesis unfolding X_def by blast
qed

lemma sum_list_map_sort:
  fixes f :: "real \<Rightarrow> real"
  shows "sum_list (map f (sort xs)) = sum_list (map f xs)"
proof -
  have "mset (map f (sort xs)) = mset (map f xs)" by simp
  hence "sum_mset (mset (map f (sort xs))) = sum_mset (mset (map f xs))" by (rule arg_cong)
  thus ?thesis by (simp only: sum_mset_sum_list)
qed

lemma sample_variance_sort:
  assumes "xs \<noteq> []"
  shows "sample_variance (sort xs)
    = sum_list (map (\<lambda>x. (x - sum_list xs / real (length xs)) ^ 2) xs) / (real (length xs) - 1)"
proof -
  have s: "sum_list (sort xs) = sum_list xs" using sum_list_map_sort[of "\<lambda>x. x" xs] by simp
  have n: "real (length xs - 1) = real (length xs) - 1"
    using assms by (cases xs) simp_all
  show ?thesis unfolding sample_variance_def Let_def
    by (simp only: s n length_sort sum_list_map_sort)
qed

text \<open>
  C7, as amended. With a nonzero elapsed time, a run with exactly one success is reported
  with the standard deviation marked unavailable, and a run with two or more successes with
  the sample standard deviation of the successful latencies \<open>xs\<close>: the square root of
  \<open>\<Sum> (x - mean)\<^sup>2 / (n - 1)\<close>, where \<open>n\<close> is their number and \<open>mean\<close> their sum
  divided by \<open>n\<close>.
\<close>

theorem C7_stdev_single_success:
  assumes "total_time \<noteq> 0"
  shows "(length (filter success results) = 1 \<longrightarrow>
            (\<exists>rep ls. print_statistics results total_time = Inr rep
               \<and> latency rep = Some ls \<and> lat_stdev ls = None))
       \<and> (2 \<le> length (filter success results) \<longrightarrow>
            (\<exists>rep ls. print_statistics results total_time = Inr rep
               \<and> latency rep = Some ls
               \<and> lat_stdev ls =
                   (let xs = map latency_ms (filter success results);
                        n = real (length xs);
                        mean = sum_list xs / n
                    in Some (sqrt (sum_list (map (\<lambda>x. (x - mean) ^ 2) xs) / (n - 1))))))"
proof (intro conjI impI)
  assume one: "length (filter success results) = 1"
  hence ne: "filter success results \<noteq> []" by auto
  hence "results \<noteq> []" by auto
  then obtain rep where rep: "print_statistics results total_time = Inr rep"
    using assms by (simp add: print_statistics_total)
  from reported_latency[OF rep ne] one rep
  show "\<exists>rep ls. print_statistics results total_time = Inr rep
               \<and> latency rep = Some ls \<and> lat_stdev ls = None"
    by (auto simp: length_sorted_latencies)
next
  assume two: "2 \<le> length (filter success results)"
  hence ne: "filter success results \<noteq> []" by auto
  hence "results \<noteq> []" by auto
  then obtain rep where rep: "print_statistics results total_time = Inr rep"
    using assms by (simp add: print_statistics_total)
  have ne': "map latency_ms (filter success results) \<noteq> []" using ne by simp
  from reported_latency[OF rep ne] two obtain ls where
    ls: "latency rep = Some ls"
      "lat_stdev ls = Some (sqrt (sample_variance (sorted_latencies results)))"
    by (auto simp: length_sorted_latencies)
  have "lat_stdev ls =
                   (let xs = map latency_ms (filter success results);
                        n = real (length xs);
                        mean = sum_list xs / n
                    in Some (sqrt (sum_list (map (\<lambda>x. (x - mean) ^ 2) xs) / (n - 1))))"
    unfolding ls(2) sorted_latencies_def sample_variance_sort[OF ne'] Let_def ..
  with rep ls(1)
  show "\<exists>rep ls. print_statistics results total_time = Inr rep
               \<and> latency rep = Some ls
               \<and> lat_stdev ls =
                   (let xs = map latency_ms (filter success results);
                        n = real (length xs);
                        mean = sum_list xs / n
                    in Some (sqrt (sum_list (map (\<lambda>x. (x - mean) ^ 2) xs) / (n - 1))))"
    by blast
qed

theorem C7_stdev_single_success_witness:
  "(2::real) \<noteq> 0
   \<and> length (filter success [\<lparr>success = True, latency_ms = 12, error = ''''\<rparr>,
                              \<lparr>success = False, latency_ms = 5, error = ''unavailable''\<rparr>]) = 1
   \<and> (\<exists>rep ls. print_statistics [\<lparr>success = True, latency_ms = 12, error = ''''\<rparr>,
                              \<lparr>success = False, latency_ms = 5, error = ''unavailable''\<rparr>] 2
                  = Inr rep \<and> latency rep = Some ls \<and> lat_stdev ls = None)
   \<and> 2 \<le> length (filter success [\<lparr>success = True, latency_ms = 6, error = ''''\<rparr>,
                                  \<lparr>success = False, latency_ms = 50, error = ''unavailable''\<rparr>,
                                  \<lparr>success = True, latency_ms = 1, error = ''''\<rparr>,
                                  \<lparr>success = True, latency_ms = 2, error = ''''\<rparr>])
   \<and> (\<exists>rep ls. print_statistics [\<lparr>success = True, latency_ms = 6, error = ''''\<rparr>,
                                  \<lparr>success = False, latency_ms = 50, error = ''unavailable''\<rparr>,
                                  \<lparr>success = True, latency_ms = 1, error = ''''\<rparr>,
                                  \<lparr>success = True, latency_ms = 2, error = ''''\<rparr>] 2
                  = Inr rep \<and> latency rep = Some ls \<and> lat_stdev ls = Some (sqrt 7))"
  using C7_stdev_single_success [of 2 "[\<lparr>success = True, latency_ms = 12, error = ''''\<rparr>,
                              \<lparr>success = False, latency_ms = 5, error = ''unavailable''\<rparr>]"]
    C7_stdev_single_success [of 2 "[\<lparr>success = True, latency_ms = 6, error = ''''\<rparr>,
                                  \<lparr>success = False, latency_ms = 50, error = ''unavailable''\<rparr>,
                                  \<lparr>success = True, latency_ms = 1, error = ''''\<rparr>,
                                  \<lparr>success = True, latency_ms = 2, error = ''''\<rparr>]"]
  by (simp add: Let_def)

text \<open>
  C7 as stated fails: a run with exactly one success whose elapsed time is 0 is not
  reported at all, the division of line 121 raises \<^verbatim>\<open>ZeroDivisionError\<close> before the
  latency block is reached.
\<close>

theorem C7_counterexample:
  "length (filter success [\<lparr>success = True, latency_ms = 12, error = ''''\<rparr>]) = 1
   \<and> print_statistics [\<lparr>success = True, latency_ms = 12, error = ''''\<rparr>] 0
       = Inl ZeroDivisionError"
  by (simp add: print_statistics_total)

text \<open>
  C9. Whenever a report is printed, its failure sample is absent when no outcome failed;
  otherwise it holds one message for each of the first five failed outcomes, fewer when
  fewer failed, in the order of the result list, each message cut to its first 100
  characters.
\<close>

theorem C9_failure_sample:
  assumes "print_statistics results t = Inr rep"
  shows "(filter (\<lambda>r. \<not> success r) results = [] \<longrightarrow> sample_errors rep = None)
    \<and> (filter (\<lambda>r. \<not> success r) results \<noteq> [] \<longrightarrow>
         (\<exists>sample. sample_errors rep = Some sample
            \<and> length sample = min 5 (length (filter (\<lambda>r. \<not> success r) results))
            \<and> (\<forall>i < length sample.
                  sample ! i = take 100 (error (filter (\<lambda>r. \<not> success r) results ! i))
                  \<and> length (sample ! i) \<le> 100)))"
proof -
  from assms have "results \<noteq> [] \<and> t \<noteq> 0"
    by (auto simp: print_statistics_total split: if_splits)
  with assms have "sample_errors rep = error_sample (filter (\<lambda>r. \<not> success r) results)"
    by (auto simp: print_statistics_total)
  thus ?thesis by (auto simp: error_sample_def)
qed

theorem C9_failure_sample_witness:
  "\<exists>rep sample. print_statistics
       [\<lparr>success = False, latency_ms = 1, error = replicate 150 CHR ''x''\<rparr>,
        \<lparr>success = True, latency_ms = 2, error = ''''\<rparr>,
        \<lparr>success = False, latency_ms = 3, error = ''e2''\<rparr>,
        \<lparr>success = False, latency_ms = 4, error = ''e3''\<rparr>,
        \<lparr>success = False, latency_ms = 5, error = ''e4''\<rparr>,
        \<lparr>success = False, latency_ms = 6, error = ''e5''\<rparr>,
        \<lparr>success = False, latency_ms = 7, error = ''e6''\<rparr>] 2 = Inr rep
     \<and> sample_errors rep = Some sample \<and> length sample = 5
     \<and> sample ! 0 = replicate 100 CHR ''x'' \<and> sample ! 4 = ''e5''"
proof -
  define X where "X = [\<lparr>success = False, latency_ms = 1, error = replicate 150 CHR ''x''\<rparr>,
        \<lparr>success = True, latency_ms = 2, error = ''''\<rparr>,
        \<lparr>success = False, latency_ms = 3, error = ''e2''\<rparr>,
        \<lparr>success = False, latency_ms = 4, error = ''e3''\<rparr>,
        \<lparr>success = False, latency_ms = 5, error = ''e4''\<rparr>,
        \<lparr>success = False, latency_ms = 6, error = ''e5''\<rparr>,
        \<lparr>success = False, latency_ms = 7, error = ''e6''\<rparr>]"
  obtain rep where rep: "print_statistics X 2 = Inr rep"
    by (simp add: print_statistics_total X_def)
  have f: "filter (\<lambda>r. \<not> success r) X =
       [\<lparr>success = False, latency_ms = 1, error = replicate 150 CHR ''x''\<rparr>,
        \<lparr>success = False, latency_ms = 3, error = ''e2''\<rparr>,
        \<lparr>success = False, latency_ms = 4, error = ''e3''\<rparr>,
        \<lparr>success = False, latency_ms = 5, error = ''e4''\<rparr>,
        \<lparr>success = False, latency_ms = 6, error = ''e5''\<rparr>,
        \<lparr>success = False, latency_ms = 7, error = ''e6''\<rparr>]"
    by (simp add: X_def)
  from C9_failure_sample[OF rep] obtain sample where
    s: "sample_errors rep = Some sample" "length sample = 5"
       "\<forall>i < length sample. sample ! i = take 100 (error (filter (\<lambda>r. \<not> success r) X ! i))"
    unfolding f by auto
  from s(2,3) have "sample ! 0 = take 100 (error (filter (\<lambda>r. \<not> success r) X ! 0))"
    "sample ! 4 = take 100 (error (filter (\<lambda>r. \<not> success r) X ! 4))" by simp_all
  hence "sample ! 0 = replicate 100 CHR ''x''" "sample ! 4 = ''e5''"
    unfolding f by (simp_all add: take_replicate)
  with rep s show ?thesis unfolding X_def by blast
qed

section \<open>When the binary64 index is the exact floor\<close>

lemma floorlog_shift_le:
  assumes "N < 2 ^ (53 + k)"
  shows "floorlog 2 N - 53 \<le> k"
proof -
  have "floorlog 2 N \<le> 53 + k" using assms by (intro floorlog_leI) auto
  thus ?thesis by simp
qed

lemma pow2_split: "s \<le> k \<Longrightarrow> (2::nat) ^ k = 2 ^ (k - s) * 2 ^ s"
  by (simp flip: power_add)

lemma round53_ge_mult53:
  assumes "N < 2 ^ 106" "K * 2 ^ 53 \<le> N"
  shows "K * 2 ^ 53 \<le> round53 N"
proof -
  define s where "s = floorlog 2 N - 53"
  have s: "s \<le> 53" using floorlog_shift_le[of N 53] assms(1) by (simp add: s_def)
  have eq: "K * 2 ^ 53 = (K * 2 ^ (53 - s)) * 2 ^ s"
    using pow2_split[OF s] by (simp only: mult.assoc)
  have "(K * 2 ^ (53 - s)) * 2 ^ s \<le> N" using assms(2) by (simp only: eq)
  hence "(K * 2 ^ (53 - s)) * 2 ^ s \<le> round_to s N" by (rule round_to_ge_mult)
  thus ?thesis by (simp only: eq round53_def s_def)
qed

lemma round53_upper:
  assumes "N < 2 ^ 100"
  shows "round53 N \<le> N + 2 ^ 46"
proof (cases "floorlog 2 N - 53 = 0")
  case True
  then show ?thesis by (simp add: round53_def round_to_def)
next
  case False
  define s where "s = floorlog 2 N - 53"
  have s0: "0 < s" using False by (simp add: s_def)
  have "s \<le> 47" using floorlog_shift_le[of N 47] assms by (simp add: s_def)
  hence "s - 1 \<le> 46" by simp
  hence "(2::nat) ^ (s - 1) \<le> 2 ^ 46" by (intro power_increasing) auto
  moreover have "round_to s N \<le> N + 2 ^ (s - 1)" using s0 by (rule round_to_upper)
  ultimately show ?thesis by (simp add: round53_def s_def)
qed

lemma round53_rounds_up:
  assumes sum: "N + E = K * 2 ^ 53" and small: "E * 2 ^ 54 \<le> N" and N: "N < 2 ^ 106"
  shows "K * 2 ^ 53 \<le> round53 N"
proof (cases "E = 0")
  case True
  then show ?thesis using round53_ge_mult53[OF N, of K] sum by simp
next
  case False
  hence E: "0 < E" by simp
  define s where "s = floorlog 2 N - 53"
  have N54: "2 ^ 54 \<le> N"
  proof -
    have "1 * 2 ^ 54 \<le> E * 2 ^ 54" using E by (intro mult_right_mono) auto
    thus ?thesis using small by simp
  qed
  hence fl: "55 \<le> floorlog 2 N" by (intro floorlog_geI) auto
  hence s2: "2 \<le> s" and fls: "floorlog 2 N = s + 53" by (simp_all add: s_def)
  have s53: "s \<le> 53" using floorlog_shift_le[of N 53] N by (simp add: s_def)
  have "0 < N" using N54 by (simp add: Suc_le_eq[symmetric] order.trans[rotated])
  hence "N < 2 ^ (s + 53)" using floorlog_bounds[of N 2] by (simp add: fls)
  hence "E * 2 ^ 54 < 2 ^ (s + 53)" using small by simp
  moreover have "(2::nat) ^ (s + 53) = 2 ^ (s - 1) * 2 ^ 54"
  proof -
    have "s + 53 = (s - 1) + 54" using s2 by simp
    thus ?thesis by (simp only: power_add)
  qed
  ultimately have "E * 2 ^ 54 < 2 ^ (s - 1) * 2 ^ 54" by (simp only:)
  hence Eh: "E < 2 ^ (s - 1)" by simp
  have two: "(2::nat) ^ s = 2 * 2 ^ (s - 1)" using s2 by (cases s) auto
  define K' where "K' = K * 2 ^ (53 - s)"
  have K': "K * 2 ^ 53 = K' * 2 ^ s"
    using pow2_split[OF s53] by (simp only: K'_def mult.assoc)
  have K'pos: "0 < K'" using sum K' E by (cases K') auto
  then obtain J where J: "K' = Suc J" by (cases K') auto
  have Nrep: "N = J * 2 ^ s + (2 ^ s - E)"
    using sum K' J Eh two by (simp add: algebra_simps)
  have rlt: "2 ^ s - E < (2::nat) ^ s" using E by simp
  have d: "N div 2 ^ s = J" unfolding Nrep using rlt by simp
  have m: "N mod 2 ^ s = 2 ^ s - E" unfolding Nrep using rlt by simp
  have "2 ^ (s - 1) < N mod 2 ^ s" using m Eh two by simp
  hence "round_to s N = (J + 1) * 2 ^ s"
    using s2 by (simp add: round_to_def Let_def d)
  thus ?thesis using K' J by (simp add: round53_def s_def)
qed

lemma pct_idx_floor:
  assumes n: "n < 2 ^ 47" and M: "M < 2 ^ 53"
    and lo: "q * 2 ^ 53 \<le> round53 (n * M)" and hi: "n * M + 2 ^ 46 < (q + 1) * 2 ^ 53"
  shows "pct_idx M n = q"
proof -
  have "n * M \<le> 2 ^ 47 * 2 ^ 53" using n M by (intro mult_mono) auto
  hence "n * M \<le> 2 ^ 100" by simp
  moreover have "n * M \<noteq> 2 ^ 100"
  proof
    assume "n * M = 2 ^ 100"
    moreover have "n * M < 2 ^ 47 * 2 ^ 53"
      using n M by (intro mult_strict_mono) auto
    ultimately show False by simp
  qed
  ultimately have N: "n * M < 2 ^ 100" by simp
  have "round53 (n * M) \<le> n * M + 2 ^ 46" using N by (rule round53_upper)
  hence up: "round53 (n * M) < (q + 1) * 2 ^ 53" using hi by simp
  have "round53 (n * M) div 2 ^ 53 = q"
    by (rule div_nat_eqI) (use lo up in \<open>simp_all add: mult.commute\<close>)
  moreover have "round53 n = n" using n by (intro round53_exact) simp
  ultimately show ?thesis
    by (simp add: pct_idx_def int_of_float_def float_mul_def float_of_len_def)
qed

lemma prod_lt_106: "n < (2::nat) ^ 47 \<Longrightarrow> M < (2::nat) ^ 53 \<Longrightarrow> n * M < 2 ^ 106"
proof -
  assume n: "n < (2::nat) ^ 47" and M: "M < (2::nat) ^ 53"
  have "n * M \<le> 2 ^ 47 * 2 ^ 53" using n M by (intro mult_mono) auto
  also have "\<dots> < (2::nat) ^ 106" by simp
  finally show ?thesis .
qed

lemma lt_le_pred: "(x::nat) < Suc k \<Longrightarrow> x \<le> k"
  by simp

lemma rem50: "(n::nat) * 50 mod 100 \<le> 50"
proof -
  have "n * 50 mod 100 = 50 * (n mod 2)" using mult_mod_right[of 50 n 2] by (simp add: mult.commute)
  also have "\<dots> \<le> 50 * 1" by (intro mult_left_mono) auto
  finally show ?thesis by simp
qed

lemma rem90: "(n::nat) * 90 mod 100 \<le> 90"
proof -
  have e: "n * 90 mod 100 = 10 * (n * 9 mod 10)"
    using mult_mod_right[of 10 "n * 9" 10] by (simp add: mult.commute)
  have "n * 9 mod 10 < Suc 9" by simp
  hence "n * 9 mod 10 \<le> 9" by (rule lt_le_pred)
  hence "10 * (n * 9 mod 10) \<le> 10 * 9" by (rule mult_le_mono2)
  thus ?thesis unfolding e by simp
qed

lemma zero_or_pos: "(x::nat) = 0 \<or> 1 \<le> x"
  by (cases x) simp_all

lemma rem95: "(n::nat) * 95 mod 100 \<le> 95 \<and> (n * 95 mod 100 = 0 \<or> 5 \<le> n * 95 mod 100)"
proof -
  have e: "n * 95 mod 100 = 5 * (n * 19 mod 20)"
    using mult_mod_right[of 5 "n * 19" 20] by (simp add: mult.commute)
  have "n * 19 mod 20 < Suc 19" by simp
  hence "n * 19 mod 20 \<le> 19" by (rule lt_le_pred)
  hence a: "5 * (n * 19 mod 20) \<le> 5 * 19" by (rule mult_le_mono2)
  from zero_or_pos[of "n * 19 mod 20"]
  have b: "5 * (n * 19 mod 20) = 0 \<or> 5 * 1 \<le> 5 * (n * 19 mod 20)"
  proof
    assume "n * 19 mod 20 = 0" thus ?thesis by simp
  next
    assume "1 \<le> n * 19 mod 20"
    hence "5 * 1 \<le> 5 * (n * 19 mod 20)" by (rule mult_le_mono2)
    thus ?thesis by (rule disjI2)
  qed
  from a b show ?thesis unfolding e by simp
qed

lemma rem99: "(n::nat) * 99 mod 100 \<le> 99 \<and> (n * 99 mod 100 = 0 \<or> 1 \<le> n * 99 mod 100)"
proof -
  have "n * 99 mod 100 < Suc 99" by simp
  hence "n * 99 mod 100 \<le> 99" by (rule lt_le_pred)
  thus ?thesis using zero_or_pos[of "n * 99 mod 100"] by blast
qed

lemma pct_idx_c50_floor:
  assumes n: "n < 2 ^ 47"
  shows "pct_idx c50 n = n * 50 div 100"
proof (rule pct_idx_floor[OF n])
  define q where "q = n * 50 div 100"
  define r where "r = n * 50 mod 100"
  have qr: "n * 50 = 100 * q + r" unfolding q_def r_def by (rule mult_div_mod_eq[symmetric])
  have r: "r \<le> 50" unfolding r_def by (rule rem50)
  show "c50 < 2 ^ 53" by (simp add: c50_def)
  have "q * 2 ^ 53 \<le> n * c50" using qr by (simp add: c50_def)
  hence "q * 2 ^ 53 \<le> round53 (n * c50)"
    by (intro round53_ge_mult53 prod_lt_106[OF n]) (simp_all add: c50_def)
  thus "n * 50 div 100 * 2 ^ 53 \<le> round53 (n * c50)" unfolding q_def .
  have "n * c50 + 2 ^ 46 < (q + 1) * 2 ^ 53" using qr r by (simp add: c50_def)
  thus "n * c50 + 2 ^ 46 < (n * 50 div 100 + 1) * 2 ^ 53" unfolding q_def .
qed

lemma pct_idx_c90_floor:
  assumes n: "n < 2 ^ 47"
  shows "pct_idx c90 n = n * 90 div 100"
proof (rule pct_idx_floor[OF n])
  define q where "q = n * 90 div 100"
  define r where "r = n * 90 mod 100"
  have qr: "n * 90 = 100 * q + r" unfolding q_def r_def by (rule mult_div_mod_eq[symmetric])
  have r: "r \<le> 90" unfolding r_def by (rule rem90)
  show "c90 < 2 ^ 53" by (simp add: c90_def)
  have "q * 2 ^ 53 \<le> n * c90" using qr by (simp add: c90_def)
  hence "q * 2 ^ 53 \<le> round53 (n * c90)"
    by (intro round53_ge_mult53 prod_lt_106[OF n]) (simp_all add: c90_def)
  thus "n * 90 div 100 * 2 ^ 53 \<le> round53 (n * c90)" unfolding q_def .
  have "n * c90 + 2 ^ 46 < (q + 1) * 2 ^ 53" using qr r n by (simp add: c90_def)
  thus "n * c90 + 2 ^ 46 < (n * 90 div 100 + 1) * 2 ^ 53" unfolding q_def .
qed

lemma pct_idx_c95_floor:
  assumes n: "n < 2 ^ 47"
  shows "pct_idx c95 n = n * 95 div 100"
proof (rule pct_idx_floor[OF n])
  define q where "q = n * 95 div 100"
  define r where "r = n * 95 mod 100"
  have qr: "n * 95 = 100 * q + r" unfolding q_def r_def by (rule mult_div_mod_eq[symmetric])
  have r: "r \<le> 95" and r0: "r = 0 \<or> 5 \<le> r" unfolding r_def using rem95[of n] by blast+
  show "c95 < 2 ^ 53" by (simp add: c95_def)
  have N: "n * c95 < 2 ^ 106" by (rule prod_lt_106[OF n]) (simp add: c95_def)
  from r0 have "q * 2 ^ 53 \<le> round53 (n * c95)"
  proof
    assume z: "r = 0"
    define E where "E = q * 2 ^ 53 - n * c95"
    have le: "n * c95 \<le> q * 2 ^ 53" using qr z by (simp add: c95_def)
    hence sum: "n * c95 + E = q * 2 ^ 53" by (simp add: E_def)
    have "E * 2 ^ 54 \<le> n * c95" using sum qr z by (simp add: c95_def)
    with sum show ?thesis using N by (intro round53_rounds_up[of _ E])
  next
    assume "5 \<le> r"
    hence "q * 2 ^ 53 \<le> n * c95" using qr n by (simp add: c95_def)
    thus ?thesis by (intro round53_ge_mult53 N)
  qed
  thus "n * 95 div 100 * 2 ^ 53 \<le> round53 (n * c95)" unfolding q_def .
  have "n * c95 + 2 ^ 46 < (q + 1) * 2 ^ 53" using qr r by (simp add: c95_def)
  thus "n * c95 + 2 ^ 46 < (n * 95 div 100 + 1) * 2 ^ 53" unfolding q_def .
qed

lemma pct_idx_c99_floor:
  assumes n: "n < 2 ^ 47"
  shows "pct_idx c99 n = n * 99 div 100"
proof (rule pct_idx_floor[OF n])
  define q where "q = n * 99 div 100"
  define r where "r = n * 99 mod 100"
  have qr: "n * 99 = 100 * q + r" unfolding q_def r_def by (rule mult_div_mod_eq[symmetric])
  have r: "r \<le> 99" and r0: "r = 0 \<or> 1 \<le> r" unfolding r_def using rem99[of n] by blast+
  show "c99 < 2 ^ 53" by (simp add: c99_def)
  have N: "n * c99 < 2 ^ 106" by (rule prod_lt_106[OF n]) (simp add: c99_def)
  from r0 have "q * 2 ^ 53 \<le> round53 (n * c99)"
  proof
    assume z: "r = 0"
    define E where "E = q * 2 ^ 53 - n * c99"
    have le: "n * c99 \<le> q * 2 ^ 53" using qr z by (simp add: c99_def)
    hence sum: "n * c99 + E = q * 2 ^ 53" by (simp add: E_def)
    have "E * 2 ^ 54 \<le> n * c99" using sum qr z by (simp add: c99_def)
    with sum show ?thesis using N by (intro round53_rounds_up[of _ E])
  next
    assume "1 \<le> r"
    hence "q * 2 ^ 53 \<le> n * c99" using qr n by (simp add: c99_def)
    thus ?thesis by (intro round53_ge_mult53 N)
  qed
  thus "n * 99 div 100 * 2 ^ 53 \<le> round53 (n * c99)" unfolding q_def .
  have "n * c99 + 2 ^ 46 < (q + 1) * 2 ^ 53" using qr r by (simp add: c99_def)
  thus "n * c99 + 2 ^ 46 < (n * 99 div 100 + 1) * 2 ^ 53" unfolding q_def .
qed

section \<open>The percentile rule\<close>

lemma filter_success_ramp_run: "filter success (ramp_run n) = ramp_run n"
  by (simp add: ramp_run_def filter_map comp_def)

lemma length_ramp_run: "length (ramp_run n) = n"
  by (simp add: ramp_run_def)

lemma sorted_latencies_ramp_run: "sorted_latencies (ramp_run n) = map real [0..<n]"
proof -
  have "sorted (map real [0..<n])" by (simp add: sorted_iff_nth_mono)
  hence "sort (map real [0..<n]) = map real [0..<n]" by (rule sorted_sort_id)
  moreover have "map latency_ms (ramp_run n) = map real [0..<n]"
    by (simp add: ramp_run_def comp_def)
  ultimately show ?thesis by (simp add: sorted_latencies_def filter_success_ramp_run)
qed

lemma ramp_run_p99:
  assumes "0 < n"
  shows "\<not> isl (print_statistics (ramp_run n) 1)
    \<and> map_option p99 (latency (projr (print_statistics (ramp_run n) 1)))
        = Some (real (min (pct_idx c99 n) (n - 1)))"
proof -
  have ne: "ramp_run n \<noteq> []" using assms length_ramp_run[of n] by auto
  then obtain rep where rep: "print_statistics (ramp_run n) 1 = Inr rep"
    by (simp add: print_statistics_total)
  have fne: "filter success (ramp_run n) \<noteq> []" using ne by (simp add: filter_success_ramp_run)
  have i: "min (pct_idx c99 n) (n - 1) < n" using assms by arith
  from reported_latency[OF rep fne] obtain ls where
    ls: "latency rep = Some ls"
    "p99 ls = sorted_latencies (ramp_run n) !
          min (pct_idx c99 (length (sorted_latencies (ramp_run n))))
              (length (sorted_latencies (ramp_run n)) - 1)"
    by blast
  have "p99 ls = real (min (pct_idx c99 n) (n - 1))"
    unfolding ls(2) sorted_latencies_ramp_run using i by simp
  thus ?thesis using rep ls(1) by simp
qed

lemma pct_idx_c99_far: "pct_idx c99 142159079146801 = 140737488355333"
  by (simp add: pct_idx_def int_of_float_def float_mul_def float_of_len_def round53_def
      round_to_def compute_floorlog c99_def Let_def)

lemma pct_idx_10: "pct_idx c50 10 = 5" "pct_idx c90 10 = 9" "pct_idx c95 10 = 9"
  "pct_idx c99 10 = 9"
  by (simp_all add: pct_idx_def int_of_float_def float_mul_def float_of_len_def round53_def
      round_to_def compute_floorlog c50_def c90_def c95_def c99_def Let_def)

text \<open>
  C2. Whenever a report is printed for a run with \<open>n\<close> successes, \<open>1 \<le> n < 2 ^ 47\<close>,
  each of p50, p90, p95 and p99 is the element of the sorted successful latencies at index
  \<open>\<lfloor>n * p / 100\<rfloor>\<close> clamped to \<open>[0, n - 1]\<close>. The bound on \<open>n\<close> is where the binary64
  product of the code is proved to have the exact floor; a list of \<open>2 ^ 47\<close> results is
  beyond any memory (its array of references alone takes a pebibyte).
\<close>

theorem C2_percentile_rule:
  assumes rep: "print_statistics results t = Inr rep"
    and pos: "1 \<le> length (sorted_latencies results)"
    and bound: "length (sorted_latencies results) < 2 ^ 47"
  shows "\<exists>ls. latency rep = Some ls
    \<and> p50 ls = sorted_latencies results !
        min (length (sorted_latencies results) * 50 div 100) (length (sorted_latencies results) - 1)
    \<and> p90 ls = sorted_latencies results !
        min (length (sorted_latencies results) * 90 div 100) (length (sorted_latencies results) - 1)
    \<and> p95 ls = sorted_latencies results !
        min (length (sorted_latencies results) * 95 div 100) (length (sorted_latencies results) - 1)
    \<and> p99 ls = sorted_latencies results !
        min (length (sorted_latencies results) * 99 div 100) (length (sorted_latencies results) - 1)"
proof -
  define l where "l = sorted_latencies results"
  define n where "n = length l"
  have n: "0 < n" "n < 2 ^ 47" using pos bound unfolding n_def l_def by linarith+
  have ne: "filter success results \<noteq> []"
    using n(1) by (auto simp: n_def l_def length_sorted_latencies)
  have f: "pct_idx c50 n = n * 50 div 100" "pct_idx c90 n = n * 90 div 100"
    "pct_idx c95 n = n * 95 div 100" "pct_idx c99 n = n * 99 div 100"
    using n(2) by (rule pct_idx_c50_floor pct_idx_c90_floor pct_idx_c95_floor pct_idx_c99_floor)+
  have m: "min (pct_idx c50 n) (n - 1) = pct_idx c50 n" "min (pct_idx c90 n) (n - 1) = pct_idx c90 n"
    "min (pct_idx c95 n) (n - 1) = pct_idx c95 n"
    using pct_idx_c50_less[OF n(1)] pct_idx_c90_less[OF n(1)] pct_idx_c95_less[OF n(1)]
    by linarith+
  from reported_latency[OF rep ne] obtain ls where
    ls: "latency rep = Some ls" "p50 ls = l ! pct_idx c50 n" "p90 ls = l ! pct_idx c90 n"
    "p95 ls = l ! pct_idx c95 n" "p99 ls = l ! min (pct_idx c99 n) (n - 1)"
    by (auto simp: l_def n_def)
  have "p50 ls = l ! min (n * 50 div 100) (n - 1)" using ls(2) m(1) by (simp only: f)
  moreover have "p90 ls = l ! min (n * 90 div 100) (n - 1)" using ls(3) m(2) by (simp only: f)
  moreover have "p95 ls = l ! min (n * 95 div 100) (n - 1)" using ls(4) m(3) by (simp only: f)
  moreover have "p99 ls = l ! min (n * 99 div 100) (n - 1)" using ls(5) by (simp only: f)
  ultimately show ?thesis using ls(1) unfolding n_def l_def by blast
qed

theorem C2_percentile_rule_witness:
  "\<exists>rep ls. print_statistics
        (map (\<lambda>v. \<lparr>success = True, latency_ms = v, error = ''''\<rparr>)
           [7, 1, 10, 4, 2, 9, 5, 3, 8, 6]) 10 = Inr rep
     \<and> 1 \<le> length (sorted_latencies
        (map (\<lambda>v. \<lparr>success = True, latency_ms = v, error = ''''\<rparr>)
           [7, 1, 10, 4, 2, 9, 5, 3, 8, 6]))
     \<and> length (sorted_latencies
        (map (\<lambda>v. \<lparr>success = True, latency_ms = v, error = ''''\<rparr>)
           [7, 1, 10, 4, 2, 9, 5, 3, 8, 6])) < 2 ^ 47
     \<and> latency rep = Some ls \<and> p50 ls = 6 \<and> p90 ls = 10 \<and> p95 ls = 10 \<and> p99 ls = 10"
proof -
  define X where "X = map (\<lambda>v. \<lparr>success = True, latency_ms = v, error = ''''\<rparr>)
           [7, 1, 10, 4, 2, 9, 5, 3, 8, 6 :: real]"
  have sl: "sorted_latencies X = [1, 2, 3, 4, 5, 6, 7, 8, 9, 10]"
    by (simp add: sorted_latencies_def X_def)
  have len: "1 \<le> length (sorted_latencies X)" "length (sorted_latencies X) < 2 ^ 47"
    by (simp_all add: sl)
  obtain rep where rep: "print_statistics X 10 = Inr rep"
    by (simp add: print_statistics_total X_def)
  from C2_percentile_rule[OF rep len] obtain ls where
    "latency rep = Some ls" "p50 ls = 6" "p90 ls = 10" "p95 ls = 10" "p99 ls = 10"
    unfolding sl by auto
  with rep len show ?thesis unfolding X_def by blast
qed

text \<open>
  Where the bound stands: for 142159079146801 successes with latencies 0, 1, 2, \<dots> the
  floor \<open>\<lfloor>142159079146801 * 99 / 100\<rfloor>\<close> is 140737488355332, while the binary64 product
  \<^verbatim>\<open>142159079146801 * 0.99\<close> rounds up to 140737488355333.0 and p99 is read at index
  140737488355333.
\<close>

lemma p99_index_past_the_bound:
  "\<not> isl (print_statistics (ramp_run 142159079146801) 1)
   \<and> length (sorted_latencies (ramp_run 142159079146801)) = 142159079146801
   \<and> sorted_latencies (ramp_run 142159079146801) !
        min (142159079146801 * 99 div 100) (142159079146801 - 1) = 140737488355332
   \<and> map_option p99 (latency (projr (print_statistics (ramp_run 142159079146801) 1)))
        = Some 140737488355333"
proof -
  have a: "\<not> isl (print_statistics (ramp_run 142159079146801) 1)"
    and b: "map_option p99 (latency (projr (print_statistics (ramp_run 142159079146801) 1)))
        = Some (real (min (pct_idx c99 142159079146801) (142159079146801 - 1)))"
    using ramp_run_p99[of 142159079146801] by simp_all
  have c: "min (pct_idx c99 142159079146801) (142159079146801 - 1) = 140737488355333"
    by (simp add: pct_idx_c99_far)
  have d: "min ((142159079146801::nat) * 99 div 100) (142159079146801 - 1) = 140737488355332"
    by simp
  have e: "sorted_latencies (ramp_run 142159079146801) ! 140737488355332 = 140737488355332"
    unfolding sorted_latencies_ramp_run by simp
  have f: "length (sorted_latencies (ramp_run 142159079146801)) = 142159079146801"
    unfolding sorted_latencies_ramp_run by simp
  show ?thesis using a b e f unfolding c d by simp
qed

section \<open>The dispatcher returns one result for each request\<close>

lemma mset_remove_nth:
  "k < length xs \<Longrightarrow> mset (remove_nth k xs) + {#xs ! k#} = mset xs"
proof -
  assume k: "k < length xs"
  have "xs = take k xs @ xs ! k # drop (Suc k) xs" using k by (rule id_take_nth_drop)
  hence "mset xs = mset (take k xs @ xs ! k # drop (Suc k) xs)" by simp
  thus ?thesis by (simp add: remove_nth_def)
qed

lemma mset_map_remove_nth:
  "k < length xs \<Longrightarrow> mset (map f (remove_nth k xs)) + {#f (xs ! k)#} = mset (map f xs)"
proof -
  assume k: "k < length xs"
  have "image_mset f (mset (remove_nth k xs) + {#xs ! k#}) = image_mset f (mset xs)"
    using mset_remove_nth[OF k] by simp
  thus ?thesis by simp
qed

lemma length_remove_nth:
  "k < length xs \<Longrightarrow> Suc (length (remove_nth k xs)) = length xs"
  by (simp add: remove_nth_def min_def)

lemma set_remove_nth: "set (remove_nth k xs) \<subseteq> set xs"
  unfolding remove_nth_def using set_take_subset[of k xs] set_drop_subset[of "Suc k" xs] by auto

lemma pool_inv_init: "pool_inv N C (init_pool N t0)"
  by (simp add: pool_inv_def init_pool_def)

lemma pool_inv_size:
  assumes "pool_inv N C s"
  shows "length (queue s) + length (running s) + length (finished s) + length (outcomes s) = N"
proof -
  have "size (mset (queue s) + mset (map fst (running s)) + mset (map fst (finished s))
       + mset (map fst (outcomes s))) = size (mset [0..<N])"
    using assms unfolding pool_inv_def by simp
  thus ?thesis by simp
qed

lemma step_Tick:
  assumes inv: "pool_inv N C s" and st: "step N C (Tick d) s = Some r"
  shows "\<exists>s'. r = Inr s' \<and> pool_inv N C s'"
proof -
  have d: "0 \<le> d" using st by (simp add: step_def split: if_splits)
  have r: "r = Inr (s\<lparr>clock := clock s + d\<rparr>)" using st d by (simp add: step_def)
  have "\<forall>x \<in> set (running s). snd x \<le> clock s + d"
    using inv d unfolding pool_inv_def by fastforce
  hence "pool_inv N C (s\<lparr>clock := clock s + d\<rparr>)"
    using inv unfolding pool_inv_def by simp
  thus ?thesis using r by blast
qed

lemma step_Start:
  assumes inv: "pool_inv N C s" and st: "step N C Start s = Some r"
  shows "\<exists>s'. r = Inr s' \<and> pool_inv N C s'"
proof -
  obtain i q where q: "queue s = i # q" using st by (cases "queue s") (simp_all add: step_def)
  have c: "length (running s) < C" using st q by (simp add: step_def split: if_splits)
  have r: "r = Inr (s\<lparr>queue := q, running := running s @ [(i, clock s)]\<rparr>)"
    using st q c by (simp add: step_def)
  have "pool_inv N C (s\<lparr>queue := q, running := running s @ [(i, clock s)]\<rparr>)"
    using inv q c unfolding pool_inv_def by (simp add: ac_simps)
  thus ?thesis using r by blast
qed

lemma step_Finish:
  assumes inv: "pool_inv N C s" and st: "step N C (Finish k out) s = Some r"
  shows "\<exists>s'. r = Inr s' \<and> pool_inv N C s'"
proof -
  let ?i = "fst (running s ! k)" and ?t = "snd (running s ! k)"
  let ?s' = "s\<lparr>running := remove_nth k (running s),
                 finished := finished s @ [(?i, send_plan_request ?t (clock s) out)],
                 calls := calls s @ [\<lparr>call_index = ?i, call_result = out,
                     call_start = ?t, call_end = clock s\<rparr>]\<rparr>"
  have k: "k < length (running s)" using st by (simp add: step_def split: if_splits)
  have r: "r = Inr ?s'" using st k by (simp add: step_def)
  have t: "?t \<le> clock s" using inv k unfolding pool_inv_def by simp
  have m: "mset (map fst (remove_nth k (running s))) + {#?i#} = mset (map fst (running s))"
    using k by (rule mset_map_remove_nth)
  have i1: "mset (queue ?s') + mset (map fst (running ?s')) + mset (map fst (finished ?s'))
       + mset (map fst (outcomes ?s')) = mset [0..<N]"
  proof -
    have "mset (queue ?s') + mset (map fst (running ?s')) + mset (map fst (finished ?s'))
       + mset (map fst (outcomes ?s'))
       = mset (queue s) + (mset (map fst (remove_nth k (running s))) + {#?i#})
           + mset (map fst (finished s)) + mset (map fst (outcomes s))"
      by (simp add: ac_simps)
    also have "\<dots> = mset [0..<N]" using inv unfolding m pool_inv_def by blast
    finally show ?thesis .
  qed
  have i2: "length (running ?s') \<le> C"
    using inv length_remove_nth[OF k] unfolding pool_inv_def by simp
  have i3: "completed ?s' = length (outcomes ?s')" using inv unfolding pool_inv_def by simp
  have i4: "\<forall>x \<in> set (running ?s'). snd x \<le> clock ?s'"
    using inv set_remove_nth[of k "running s"] unfolding pool_inv_def by auto
  have i5: "\<forall>c \<in> set (calls ?s'). call_start c \<le> call_end c"
    using inv t unfolding pool_inv_def by simp
  have i6: "mset (map outcome_of (calls ?s'))
       = mset (finished ?s') + mset (outcomes ?s')"
    using inv unfolding pool_inv_def by (simp add: outcome_of_def)
  have "pool_inv N C ?s'" unfolding pool_inv_def using i1 i2 i3 i4 i5 i6 by blast
  thus ?thesis using r by blast
qed

lemma step_Collect:
  assumes inv: "pool_inv N C s" and st: "step N C (Collect k) s = Some r"
  shows "\<exists>s'. r = Inr s' \<and> pool_inv N C s'"
proof -
  let ?s' = "s\<lparr>finished := remove_nth k (finished s),
                outcomes := outcomes s @ [finished s ! k], completed := completed s + 1\<rparr>"
  let ?p = "progress s @ [(completed s + 1, real (100 * (completed s + 1)) / real N)]"
  have k: "k < length (finished s)" using st by (simp add: step_def split: if_splits)
  have N: "N \<noteq> 0" using pool_inv_size[OF inv] k by auto
  have r: "r = Inr ?s' \<or> r = Inr (?s'\<lparr>progress := ?p\<rparr>)"
    using st k N by (simp add: step_def Let_def split: if_splits)
  have m: "mset (map fst (remove_nth k (finished s))) + {#fst (finished s ! k)#}
      = mset (map fst (finished s))"
    using k by (rule mset_map_remove_nth)
  have m2: "mset (remove_nth k (finished s)) + {#finished s ! k#} = mset (finished s)"
    using k by (rule mset_remove_nth)
  have i1: "mset (queue ?s') + mset (map fst (running ?s')) + mset (map fst (finished ?s'))
       + mset (map fst (outcomes ?s')) = mset [0..<N]"
  proof -
    have "mset (queue ?s') + mset (map fst (running ?s')) + mset (map fst (finished ?s'))
       + mset (map fst (outcomes ?s'))
       = mset (queue s) + mset (map fst (running s))
           + (mset (map fst (remove_nth k (finished s))) + {#fst (finished s ! k)#})
           + mset (map fst (outcomes s))"
      by (simp add: ac_simps)
    also have "\<dots> = mset [0..<N]" using inv unfolding m pool_inv_def by blast
    finally show ?thesis .
  qed
  have i2: "length (running ?s') \<le> C" using inv unfolding pool_inv_def by simp
  have i3: "completed ?s' = length (outcomes ?s')" using inv unfolding pool_inv_def by simp
  have i4: "\<forall>x \<in> set (running ?s'). snd x \<le> clock ?s'"
    using inv unfolding pool_inv_def by simp
  have i5: "\<forall>c \<in> set (calls ?s'). call_start c \<le> call_end c"
    using inv unfolding pool_inv_def by simp
  have i6: "mset (map outcome_of (calls ?s'))
       = mset (finished ?s') + mset (outcomes ?s')"
  proof -
    have "mset (finished ?s') + mset (outcomes ?s')
        = (mset (remove_nth k (finished s)) + {#finished s ! k#}) + mset (outcomes s)"
      by (simp add: ac_simps)
    also have "\<dots> = mset (finished s) + mset (outcomes s)" unfolding m2 ..
    finally show ?thesis using inv unfolding pool_inv_def by simp
  qed
  have a: "pool_inv N C ?s'" unfolding pool_inv_def using i1 i2 i3 i4 i5 i6 by blast
  hence b: "pool_inv N C (?s'\<lparr>progress := ?p\<rparr>)" unfolding pool_inv_def by simp
  show ?thesis using r a b by blast
qed

lemma pool_inv_step:
  assumes "pool_inv N C s" and "step N C e s = Some r"
  shows "\<exists>s'. r = Inr s' \<and> pool_inv N C s'"
  using assms by (cases e) (blast intro: step_Tick step_Start step_Finish step_Collect)+

lemma pool_inv_exec:
  "pool_inv N C s \<Longrightarrow> exec N C evs s = Some r \<Longrightarrow> \<exists>s'. r = Inr s' \<and> pool_inv N C s'"
proof (induction evs arbitrary: s)
  case Nil
  thus ?case by auto
next
  case (Cons e es)
  from Cons.prems(2) obtain r1 where r1: "step N C e s = Some r1"
    by (cases "step N C e s") simp_all
  from pool_inv_step[OF Cons.prems(1) r1] obtain s1 where s1: "r1 = Inr s1" "pool_inv N C s1"
    by blast
  have "exec N C es s1 = Some r" using Cons.prems(2) r1 s1 by simp
  from Cons.IH[OF s1(2) this] show ?case .
qed

lemma work_left_step:
  assumes "step N C e s = Some (Inr s')"
  shows "work_left s' + busy [e] = work_left s"
proof (cases e)
  case (Tick d)
  thus ?thesis using assms by (auto simp: step_def work_left_def busy_def split: if_splits)
next
  case Start
  thus ?thesis using assms
    by (auto simp: step_def work_left_def busy_def split: if_splits list.splits)
next
  case (Finish k out)
  hence k: "k < length (running s)" using assms by (simp add: step_def split: if_splits)
  show ?thesis using assms Finish k length_remove_nth[OF k]
    by (auto simp: step_def work_left_def busy_def)
next
  case (Collect k)
  hence k: "k < length (finished s)" using assms by (simp add: step_def split: if_splits)
  show ?thesis using assms Collect k length_remove_nth[OF k]
    by (auto simp: step_def work_left_def busy_def Let_def split: if_splits)
qed

lemma busy_Cons: "busy (e # es) = busy [e] + busy es"
  by (simp add: busy_def)

lemma work_left_exec:
  "exec N C evs s = Some (Inr s') \<Longrightarrow> work_left s' + busy evs = work_left s"
proof (induction evs arbitrary: s)
  case Nil
  thus ?case by (simp add: busy_def)
next
  case (Cons e es)
  from Cons.prems obtain s1 where s1: "step N C e s = Some (Inr s1)" "exec N C es s1 = Some (Inr s')"
    by (auto split: option.splits sum.splits)
  have "work_left s' + busy es = work_left s1" using Cons.IH[OF s1(2)] .
  moreover have "work_left s1 + busy [e] = work_left s" using work_left_step[OF s1(1)] .
  ultimately show ?case unfolding busy_Cons[of e es] by linarith
qed

lemma work_left_init: "work_left (init_pool N t0) = 3 * N"
  by (simp add: work_left_def init_pool_def)

lemma work_left_idle: "pool_idle s \<longleftrightarrow> work_left s = 0"
  by (auto simp: pool_idle_def work_left_def)

lemma next_event_enabled:
  assumes "\<not> pool_idle s" "1 \<le> C"
  shows "\<exists>r. step N C (next_event s) s = Some r"
proof (cases "finished s \<noteq> []")
  case True
  thus ?thesis by (auto simp: next_event_def step_def Let_def)
next
  case f: False
  show ?thesis
  proof (cases "running s \<noteq> []")
    case True
    thus ?thesis using f by (auto simp: next_event_def step_def)
  next
    case False
    hence "queue s \<noteq> []" using f assms(1) by (simp add: pool_idle_def)
    then obtain i q where "queue s = i # q" by (cases "queue s") auto
    thus ?thesis using f False assms(2) by (auto simp: next_event_def step_def)
  qed
qed

lemma busy_next_event: "busy [next_event s] = 1"
  by (simp add: busy_def next_event_def)

lemma exec_append:
  "exec N C evs s = Some (Inr s1) \<Longrightarrow> exec N C (evs @ rest) s = exec N C rest s1"
proof (induction evs arbitrary: s)
  case Nil
  thus ?case by simp
next
  case (Cons e es)
  from Cons.prems obtain s2 where s2: "step N C e s = Some (Inr s2)" "exec N C es s2 = Some (Inr s1)"
    by (auto split: option.splits sum.splits)
  show ?case using Cons.IH[OF s2(2)] s2(1) by simp
qed

lemma can_finish:
  assumes "1 \<le> C"
  shows "pool_inv N C s \<Longrightarrow> \<exists>evs s'. exec N C evs s = Some (Inr s') \<and> pool_idle s'"
proof (induction "work_left s" arbitrary: s rule: less_induct)
  case less
  show ?case
  proof (cases "pool_idle s")
    case True
    hence "exec N C [] s = Some (Inr s) \<and> pool_idle s" by simp
    thus ?thesis by blast
  next
    case False
    from next_event_enabled[OF False assms] obtain r where r: "step N C (next_event s) s = Some r"
      by blast
    from pool_inv_step[OF less.prems r] obtain s1 where s1: "r = Inr s1" "pool_inv N C s1"
      by blast
    have "work_left s1 + busy [next_event s] = work_left s"
      using work_left_step[of N C "next_event s" s s1] r s1(1) by simp
    hence "work_left s1 < work_left s" by (simp add: busy_next_event)
    from less.hyps[OF this s1(2)] obtain evs s' where
      e: "exec N C evs s1 = Some (Inr s')" "pool_idle s'" by blast
    have "exec N C (next_event s # evs) s = Some (Inr s')" using r s1(1) e(1) by simp
    thus ?thesis using e(2) by blast
  qed
qed

lemma clock_step: "step N C e s = Some (Inr s') \<Longrightarrow> clock s \<le> clock s'"
  by (cases e) (auto simp: step_def Let_def split: if_splits list.splits)

lemma clock_exec: "exec N C evs s = Some (Inr s') \<Longrightarrow> clock s \<le> clock s'"
proof (induction evs arbitrary: s)
  case Nil
  thus ?case by simp
next
  case (Cons e es)
  from Cons.prems obtain s1 where s1: "step N C e s = Some (Inr s1)" "exec N C es s1 = Some (Inr s')"
    by (auto split: option.splits sum.splits)
  show ?case using clock_step[OF s1(1)] Cons.IH[OF s1(2)] by linarith
qed

lemma calls_step:
  "step N C e s = Some (Inr s') \<Longrightarrow>
     calls s' = calls s @ (case e of Finish k out \<Rightarrow>
        [\<lparr>call_index = fst (running s ! k), call_result = out,
          call_start = snd (running s ! k), call_end = clock s\<rparr>] | _ \<Rightarrow> [])"
  by (cases e) (auto simp: step_def Let_def split: if_splits list.splits)

lemma calls_exec_mono: "exec N C evs s = Some (Inr s') \<Longrightarrow> set (calls s) \<subseteq> set (calls s')"
proof (induction evs arbitrary: s)
  case Nil
  thus ?case by simp
next
  case (Cons e es)
  from Cons.prems obtain s1 where s1: "step N C e s = Some (Inr s1)" "exec N C es s1 = Some (Inr s')"
    by (auto split: option.splits sum.splits)
  show ?case using calls_step[OF s1(1)] Cons.IH[OF s1(2)] by auto
qed

lemma finish_logged:
  "exec N C evs s = Some (Inr s') \<Longrightarrow> Finish k out \<in> set evs \<Longrightarrow>
     \<exists>c \<in> set (calls s'). call_result c = out"
proof (induction evs arbitrary: s)
  case Nil
  thus ?case by simp
next
  case (Cons e es)
  from Cons.prems(1) obtain s1 where
    s1: "step N C e s = Some (Inr s1)" "exec N C es s1 = Some (Inr s')"
    by (auto split: option.splits sum.splits)
  show ?case
  proof (cases "e = Finish k out")
    case True
    let ?c = "\<lparr>call_index = fst (running s ! k), call_result = out,
          call_start = snd (running s ! k), call_end = clock s\<rparr>"
    have "?c \<in> set (calls s1)" using calls_step[OF s1(1)] True by simp
    hence "?c \<in> set (calls s')" using calls_exec_mono[OF s1(2)] by blast
    moreover have "call_result ?c = out" by simp
    ultimately show ?thesis by blast
  next
    case False
    hence "Finish k out \<in> set es" using Cons.prems(2) by simp
    from Cons.IH[OF s1(2) this] show ?thesis .
  qed
qed

lemma latency_send_plan_request:
  "latency_ms (send_plan_request st fin out) = (fin - st) * 1000"
  by (cases out) (simp_all add: send_plan_request_def)

lemma idle_indices:
  assumes "pool_inv N C s" "pool_idle s"
  shows "mset (map fst (outcomes s)) = mset [0..<N]" "length (outcomes s) = N"
    "mset (outcomes s) = mset (map outcome_of (calls s))"
proof -
  show "mset (map fst (outcomes s)) = mset [0..<N]"
    using assms unfolding pool_inv_def pool_idle_def by simp
  show "length (outcomes s) = N" using pool_inv_size[OF assms(1)] assms(2)
    by (simp add: pool_idle_def)
  show "mset (outcomes s) = mset (map outcome_of (calls s))"
    using assms unfolding pool_inv_def pool_idle_def by simp
qed

lemma idle_call_outcome:
  assumes "pool_inv N C s" "pool_idle s" "c \<in> set (calls s)"
  shows "outcome_of c \<in> set (outcomes s)" "call_start c \<le> call_end c"
proof -
  have "outcome_of c \<in> set (map outcome_of (calls s))" using assms(3) by simp
  hence "outcome_of c \<in># mset (map outcome_of (calls s))" by (simp only: set_mset_mset)
  hence "outcome_of c \<in># mset (outcomes s)" using idle_indices(3)[OF assms(1,2)] by simp
  thus "outcome_of c \<in> set (outcomes s)" by simp
  show "call_start c \<le> call_end c" using assms(1,3) unfolding pool_inv_def by blast
qed

lemma idle_latency:
  assumes "pool_inv N C s" "pool_idle s" "x \<in> set (outcomes s)"
  shows "0 \<le> latency_ms (snd x)"
proof -
  have "x \<in># mset (outcomes s)" using assms(3) by simp
  hence "x \<in># mset (map outcome_of (calls s))" using idle_indices(3)[OF assms(1,2)] by simp
  hence "x \<in> set (map outcome_of (calls s))" by (simp only: set_mset_mset)
  then obtain c where c: "c \<in> set (calls s)" "x = outcome_of c" by auto
  have "call_start c \<le> call_end c" using assms(1) c(1) unfolding pool_inv_def by blast
  thus ?thesis unfolding c(2) outcome_of_def by (simp add: latency_send_plan_request)
qed

lemma run_pool_final:
  assumes "1 \<le> C" "run_pool N C t0 evs = Some r"
  shows "\<exists>s. r = Inr s \<and> exec N C evs (init_pool N t0) = Some (Inr s)
    \<and> pool_inv N C s \<and> pool_idle s"
proof -
  have C: "C \<noteq> 0" using assms(1) by simp
  obtain r1 where r1: "exec N C evs (init_pool N t0) = Some r1"
    using assms(2) C by (cases "exec N C evs (init_pool N t0)") (simp_all add: run_pool_def)
  from pool_inv_exec[OF pool_inv_init r1] obtain s where s: "r1 = Inr s" "pool_inv N C s"
    by blast
  have "pool_idle s \<and> r = Inr s" using assms(2) C r1 s(1)
    by (simp add: run_pool_def split: if_splits)
  thus ?thesis using r1 s by blast
qed

lemma run_pool_extend:
  assumes "1 \<le> C" "exec N C evs (init_pool N t0) = Some (Inr s)"
  shows "busy evs \<le> 3 * N" "\<exists>rest s'. run_pool N C t0 (evs @ rest) = Some (Inr s')"
proof -
  show "busy evs \<le> 3 * N" using work_left_exec[OF assms(2)] by (simp add: work_left_init)
  from pool_inv_exec[OF pool_inv_init assms(2)] have inv: "pool_inv N C s" by simp
  from can_finish[OF assms(1) inv] obtain rest s' where
    r: "exec N C rest s = Some (Inr s')" "pool_idle s'" by blast
  have "exec N C (evs @ rest) (init_pool N t0) = Some (Inr s')"
    using exec_append[OF assms(2)] r(1) by simp
  hence "run_pool N C t0 (evs @ rest) = Some (Inr s')" using assms(1) r(2)
    by (simp add: run_pool_def)
  thus "\<exists>rest s'. run_pool N C t0 (evs @ rest) = Some (Inr s')" by blast
qed

text \<open>
  C1. For every number of requests \<open>N\<close> and every bound \<open>C \<ge> 1\<close> on the workers: whatever
  the order in which workers start, calls end and futures are yielded, a run that comes
  to its end raises nothing and returns exactly \<open>N\<close> results; the request indices of the
  results are \<open>0, \<dots>, N - 1\<close>, each exactly once; every latency is at least 0 ms, and so
  is the elapsed time. And every run comes to its end: a run that has begun takes at most
  \<open>3 * N\<close> events other than the passing of time, and from every state it reaches it can
  be continued to the end.
\<close>

theorem C1_dispatcher_outcomes:
  assumes "1 \<le> C"
  shows "(\<forall>evs r. run_pool N C t0 evs = Some r \<longrightarrow>
            (\<exists>s. r = Inr s
               \<and> run_load_test N C t0 evs = Some (Inr (map snd (outcomes s), clock s - t0))
               \<and> length (map snd (outcomes s)) = N
               \<and> mset (map fst (outcomes s)) = mset [0..<N]
               \<and> (\<forall>x \<in> set (map snd (outcomes s)). 0 \<le> latency_ms x)
               \<and> 0 \<le> clock s - t0))
       \<and> (\<forall>evs s. exec N C evs (init_pool N t0) = Some (Inr s) \<longrightarrow>
            busy evs \<le> 3 * N \<and> (\<exists>rest s'. run_pool N C t0 (evs @ rest) = Some (Inr s')))"
proof (intro conjI allI impI)
  fix evs r
  assume run: "run_pool N C t0 evs = Some r"
  from run_pool_final[OF assms run] obtain s where
    s: "r = Inr s" "exec N C evs (init_pool N t0) = Some (Inr s)" "pool_inv N C s" "pool_idle s"
    by blast
  have a: "run_load_test N C t0 evs = Some (Inr (map snd (outcomes s), clock s - t0))"
    using run s(1) by (simp add: run_load_test_def)
  have b: "length (map snd (outcomes s)) = N" using idle_indices(2)[OF s(3,4)] by simp
  have c: "mset (map fst (outcomes s)) = mset [0..<N]" using idle_indices(1)[OF s(3,4)] .
  have d: "\<forall>x \<in> set (map snd (outcomes s)). 0 \<le> latency_ms x"
    using idle_latency[OF s(3,4)] by auto
  have e: "0 \<le> clock s - t0" using clock_exec[OF s(2)] by (simp add: init_pool_def)
  show "\<exists>s. r = Inr s
               \<and> run_load_test N C t0 evs = Some (Inr (map snd (outcomes s), clock s - t0))
               \<and> length (map snd (outcomes s)) = N
               \<and> mset (map fst (outcomes s)) = mset [0..<N]
               \<and> (\<forall>x \<in> set (map snd (outcomes s)). 0 \<le> latency_ms x)
               \<and> 0 \<le> clock s - t0"
    using s(1) a b c d e by blast
next
  fix evs s
  assume "exec N C evs (init_pool N t0) = Some (Inr s)"
  thus "busy evs \<le> 3 * N" by (rule run_pool_extend(1)[OF assms])
next
  fix evs s
  assume "exec N C evs (init_pool N t0) = Some (Inr s)"
  thus "\<exists>rest s'. run_pool N C t0 (evs @ rest) = Some (Inr s')"
    by (rule run_pool_extend(2)[OF assms])
qed

text \<open>
  An example: three requests on two workers. Requests 0 and 1 start together, 1 succeeds
  after 250 ms and is collected, 2 starts, 0 fails after 500 ms, 2 succeeds after 750 ms
  and is collected before 0.
\<close>

lemma example_run_pool:
  "\<exists>s. run_pool 3 2 0 example_run = Some (Inr s)
     \<and> outcomes s = [(1, \<lparr>success = True, latency_ms = 250, error = []\<rparr>),
                     (2, \<lparr>success = True, latency_ms = 750, error = []\<rparr>),
                     (0, \<lparr>success = False, latency_ms = 500, error = ''deadline''\<rparr>)]
     \<and> clock s = 1"
  by (simp add: run_pool_def example_run_def init_pool_def step_def remove_nth_def
      send_plan_request_def pool_idle_def Let_def upt_rec[of _ 3])

lemma example_state_reached:
  "exec 3 2 (take 7 example_run) (init_pool 3 0) = Some (Inr example_state)"
  by (simp add: example_run_def example_state_def init_pool_def step_def remove_nth_def
      send_plan_request_def Let_def upt_rec[of _ 3])

theorem C1_dispatcher_outcomes_witness:
  "(1::nat) \<le> 2
   \<and> run_load_test 3 2 0 example_run
       = Some (Inr ([\<lparr>success = True, latency_ms = 250, error = []\<rparr>,
                     \<lparr>success = True, latency_ms = 750, error = []\<rparr>,
                     \<lparr>success = False, latency_ms = 500, error = ''deadline''\<rparr>], 1))
   \<and> (\<exists>s. run_pool 3 2 0 example_run = Some (Inr s)
         \<and> map fst (outcomes s) = [1, 2, 0]
         \<and> length (map snd (outcomes s)) = 3
         \<and> mset (map fst (outcomes s)) = mset [0..<3])
   \<and> busy example_run \<le> 3 * 3"
proof -
  from example_run_pool obtain s where
    s: "run_pool 3 2 0 example_run = Some (Inr s)"
      "outcomes s = [(1, \<lparr>success = True, latency_ms = 250, error = []\<rparr>),
                     (2, \<lparr>success = True, latency_ms = 750, error = []\<rparr>),
                     (0, \<lparr>success = False, latency_ms = 500, error = ''deadline''\<rparr>)]"
      "clock s = 1"
    by blast
  have c: "(1::nat) \<le> 2" by simp
  from C1_dispatcher_outcomes[OF c, of 3 0] s(1) obtain s' where
    s': "Inr s = (Inr s' :: py_error + pool_state)"
      "run_load_test 3 2 0 example_run = Some (Inr (map snd (outcomes s'), clock s' - 0))"
      "length (map snd (outcomes s')) = 3"
      "mset (map fst (outcomes s')) = mset [0..<3]"
    by blast
  have eq: "s' = s" using s'(1) by simp
  have a: "run_load_test 3 2 0 example_run
       = Some (Inr ([\<lparr>success = True, latency_ms = 250, error = []\<rparr>,
                     \<lparr>success = True, latency_ms = 750, error = []\<rparr>,
                     \<lparr>success = False, latency_ms = 500, error = ''deadline''\<rparr>], 1))"
    using s'(2) unfolding eq by (simp add: s(2,3))
  have b: "map fst (outcomes s) = [1, 2, 0]" by (simp add: s(2))
  have d: "busy example_run \<le> 3 * 3" by (simp add: busy_def example_run_def)
  have ex: "\<exists>s. run_pool 3 2 0 example_run = Some (Inr s)
         \<and> map fst (outcomes s) = [1, 2, 0]
         \<and> length (map snd (outcomes s)) = 3
         \<and> mset (map fst (outcomes s)) = mset [0..<3]"
    by (rule exI[of _ s], intro conjI) (fact s(1) b s'(3,4)[unfolded eq])+
  show ?thesis by (intro conjI) (fact c a ex d)+
qed

text \<open>
  C8. A call that ends with \<^verbatim>\<open>grpc.RpcError\<close> raises nothing in the worker: the event
  puts, for the index of that request, a result with \<open>success = False\<close>, the message of
  the error and the elapsed time among the finished futures, and leaves the other running
  calls, the queue and the collected results as they were. In every run that comes to its
  end, each such failed call has its failure result, under its own index, among the
  returned results, while the indices of the results are still \<open>0, \<dots>, N - 1\<close>, each
  exactly once; and after any events, failures among them, the run can still be continued
  to its end.
\<close>

theorem C8_failure_captured:
  assumes "1 \<le> C"
  shows "(\<forall>s k msg. k < length (running s) \<longrightarrow>
            step N C (Finish k (RpcError msg)) s =
              Some (Inr (s\<lparr>running := remove_nth k (running s),
                 finished := finished s @ [(fst (running s ! k),
                    \<lparr>success = False, latency_ms = (clock s - snd (running s ! k)) * 1000,
                     error = msg\<rparr>)],
                 calls := calls s @ [\<lparr>call_index = fst (running s ! k),
                    call_result = RpcError msg, call_start = snd (running s ! k),
                    call_end = clock s\<rparr>]\<rparr>)))
       \<and> (\<forall>evs r. run_pool N C t0 evs = Some r \<longrightarrow>
            (\<exists>s. r = Inr s
               \<and> length (outcomes s) = N \<and> mset (map fst (outcomes s)) = mset [0..<N]
               \<and> (\<forall>k msg. Finish k (RpcError msg) \<in> set evs \<longrightarrow>
                     (\<exists>c \<in> set (calls s). call_result c = RpcError msg))
               \<and> (\<forall>c \<in> set (calls s). \<forall>msg. call_result c = RpcError msg \<longrightarrow>
                     call_start c \<le> call_end c
                     \<and> (call_index c, \<lparr>success = False,
                           latency_ms = (call_end c - call_start c) * 1000, error = msg\<rparr>)
                         \<in> set (outcomes s))))
       \<and> (\<forall>evs s. exec N C evs (init_pool N t0) = Some (Inr s) \<longrightarrow>
            (\<exists>rest s'. run_pool N C t0 (evs @ rest) = Some (Inr s')))"
proof (intro conjI allI impI)
  fix s :: pool_state and k msg
  assume "k < length (running s)"
  thus "step N C (Finish k (RpcError msg)) s =
              Some (Inr (s\<lparr>running := remove_nth k (running s),
                 finished := finished s @ [(fst (running s ! k),
                    \<lparr>success = False, latency_ms = (clock s - snd (running s ! k)) * 1000,
                     error = msg\<rparr>)],
                 calls := calls s @ [\<lparr>call_index = fst (running s ! k),
                    call_result = RpcError msg, call_start = snd (running s ! k),
                    call_end = clock s\<rparr>]\<rparr>))"
    by (simp add: step_def send_plan_request_def)
next
  fix evs r
  assume run: "run_pool N C t0 evs = Some r"
  from run_pool_final[OF assms run] obtain s where
    s: "r = Inr s" "exec N C evs (init_pool N t0) = Some (Inr s)" "pool_inv N C s" "pool_idle s"
    by blast
  have a: "length (outcomes s) = N" using idle_indices(2)[OF s(3,4)] .
  have b: "mset (map fst (outcomes s)) = mset [0..<N]" using idle_indices(1)[OF s(3,4)] .
  have c: "\<forall>k msg. Finish k (RpcError msg) \<in> set evs \<longrightarrow>
                     (\<exists>c \<in> set (calls s). call_result c = RpcError msg)"
    using finish_logged[OF s(2)] by blast
  have d: "\<forall>c \<in> set (calls s). \<forall>msg. call_result c = RpcError msg \<longrightarrow>
                     call_start c \<le> call_end c
                     \<and> (call_index c, \<lparr>success = False,
                           latency_ms = (call_end c - call_start c) * 1000, error = msg\<rparr>)
                         \<in> set (outcomes s)"
  proof (intro ballI allI impI)
    fix c msg
    assume c: "c \<in> set (calls s)" and m: "call_result c = RpcError msg"
    have "outcome_of c = (call_index c, \<lparr>success = False,
                           latency_ms = (call_end c - call_start c) * 1000, error = msg\<rparr>)"
      by (simp add: outcome_of_def send_plan_request_def m)
    thus "call_start c \<le> call_end c
                     \<and> (call_index c, \<lparr>success = False,
                           latency_ms = (call_end c - call_start c) * 1000, error = msg\<rparr>)
                         \<in> set (outcomes s)"
      using idle_call_outcome[OF s(3,4) c] by simp
  qed
  show "\<exists>s. r = Inr s
               \<and> length (outcomes s) = N \<and> mset (map fst (outcomes s)) = mset [0..<N]
               \<and> (\<forall>k msg. Finish k (RpcError msg) \<in> set evs \<longrightarrow>
                     (\<exists>c \<in> set (calls s). call_result c = RpcError msg))
               \<and> (\<forall>c \<in> set (calls s). \<forall>msg. call_result c = RpcError msg \<longrightarrow>
                     call_start c \<le> call_end c
                     \<and> (call_index c, \<lparr>success = False,
                           latency_ms = (call_end c - call_start c) * 1000, error = msg\<rparr>)
                         \<in> set (outcomes s))"
    using s(1) a b c d by blast
next
  fix evs s
  assume "exec N C evs (init_pool N t0) = Some (Inr s)"
  thus "\<exists>rest s'. run_pool N C t0 (evs @ rest) = Some (Inr s')"
    by (rule run_pool_extend(2)[OF assms])
qed

theorem C8_failure_captured_witness:
  "(1::nat) \<le> 2
   \<and> 0 < length (running example_state)
   \<and> step 3 2 (Finish 0 (RpcError ''deadline'')) example_state =
        Some (Inr (example_state\<lparr>running := [(2, 1/4)],
           finished := [(0, \<lparr>success = False, latency_ms = 500, error = ''deadline''\<rparr>)],
           calls := [\<lparr>call_index = 1, call_result = Response, call_start = 0, call_end = 1/4\<rparr>,
                     \<lparr>call_index = 0, call_result = RpcError ''deadline'', call_start = 0,
                      call_end = 1/2\<rparr>]\<rparr>))
   \<and> Finish 0 (RpcError ''deadline'') \<in> set example_run
   \<and> (\<exists>s. run_pool 3 2 0 example_run = Some (Inr s)
         \<and> length (outcomes s) = 3
         \<and> mset (map fst (outcomes s)) = mset [0..<3]
         \<and> (\<exists>c \<in> set (calls s). call_result c = RpcError ''deadline''
               \<and> call_index c = 0 \<and> (call_end c - call_start c) * 1000 = 500
               \<and> (0, \<lparr>success = False, latency_ms = 500, error = ''deadline''\<rparr>)
                   \<in> set (outcomes s)))"
proof -
  from example_run_pool obtain s where
    s: "run_pool 3 2 0 example_run = Some (Inr s)"
      "outcomes s = [(1, \<lparr>success = True, latency_ms = 250, error = []\<rparr>),
                     (2, \<lparr>success = True, latency_ms = 750, error = []\<rparr>),
                     (0, \<lparr>success = False, latency_ms = 500, error = ''deadline''\<rparr>)]"
    by blast
  have c: "(1::nat) \<le> 2" by simp
  have k: "0 < length (running example_state)" by (simp add: example_state_def)
  have m: "Finish 0 (RpcError ''deadline'') \<in> set example_run" by (simp add: example_run_def)
  note T = C8_failure_captured[OF c, of 3 0]
  have st: "step 3 2 (Finish 0 (RpcError ''deadline'')) example_state =
        Some (Inr (example_state\<lparr>running := [(2, 1/4)],
           finished := [(0, \<lparr>success = False, latency_ms = 500, error = ''deadline''\<rparr>)],
           calls := [\<lparr>call_index = 1, call_result = Response, call_start = 0, call_end = 1/4\<rparr>,
                     \<lparr>call_index = 0, call_result = RpcError ''deadline'', call_start = 0,
                      call_end = 1/2\<rparr>]\<rparr>))"
    using T[THEN conjunct1, rule_format, OF k, of "''deadline''"]
    by (simp add: example_state_def remove_nth_def)
  from T[THEN conjunct2, THEN conjunct1, rule_format, OF s(1)] obtain s' where
    s': "Inr s = (Inr s' :: py_error + pool_state)"
      "length (outcomes s') = 3" "mset (map fst (outcomes s')) = mset [0..<3]"
      "\<forall>k msg. Finish k (RpcError msg) \<in> set example_run \<longrightarrow>
          (\<exists>c \<in> set (calls s'). call_result c = RpcError msg)"
      "\<forall>c \<in> set (calls s'). \<forall>msg. call_result c = RpcError msg \<longrightarrow>
          call_start c \<le> call_end c
          \<and> (call_index c, \<lparr>success = False,
                latency_ms = (call_end c - call_start c) * 1000, error = msg\<rparr>)
              \<in> set (outcomes s')"
    by blast
  have eq: "s' = s" using s'(1) by simp
  from s'(4) m obtain cl where
    cl: "cl \<in> set (calls s)" "call_result cl = RpcError ''deadline''"
    unfolding eq by blast
  from s'(5)[unfolded eq] cl have
    mem: "(call_index cl, \<lparr>success = False,
                latency_ms = (call_end cl - call_start cl) * 1000, error = ''deadline''\<rparr>)
              \<in> set (outcomes s)"
    by blast
  hence v: "call_index cl = 0" "(call_end cl - call_start cl) * 1000 = 500"
    unfolding s(2) by simp_all
  have mem0: "(0, \<lparr>success = False, latency_ms = 500, error = ''deadline''\<rparr>) \<in> set (outcomes s)"
    unfolding s(2) by simp
  have bx: "\<exists>c \<in> set (calls s). call_result c = RpcError ''deadline''
               \<and> call_index c = 0 \<and> (call_end c - call_start c) * 1000 = 500
               \<and> (0, \<lparr>success = False, latency_ms = 500, error = ''deadline''\<rparr>)
                   \<in> set (outcomes s)"
    by (rule bexI[of _ cl], intro conjI) (fact cl v mem0)+
  have ex: "\<exists>s. run_pool 3 2 0 example_run = Some (Inr s)
         \<and> length (outcomes s) = 3
         \<and> mset (map fst (outcomes s)) = mset [0..<3]
         \<and> (\<exists>c \<in> set (calls s). call_result c = RpcError ''deadline''
               \<and> call_index c = 0 \<and> (call_end c - call_start c) * 1000 = 500
               \<and> (0, \<lparr>success = False, latency_ms = 500, error = ''deadline''\<rparr>)
                   \<in> set (outcomes s))"
    by (rule exI[of _ s], intro conjI) (fact s(1) s'(2,3)[unfolded eq] bx)+
  show ?thesis by (intro conjI) (fact c k st m ex)+
qed

lemma run_load_test_no_requests:
  "1 \<le> C \<Longrightarrow> run_load_test 0 C t0 [] = Some (Inr ([], 0))"
  by (simp add: run_load_test_def run_pool_def init_pool_def pool_idle_def)

lemma run_load_test_no_workers: "run_load_test N 0 t0 evs = Some (Inl ValueError)"
  by (simp add: run_load_test_def run_pool_def)

end
